theory Spec2Isabelle
  imports Main "HOL-Library.List_Lexorder" "HOL-Library.AList"
begin


section \<open>Python values used by beehbase.py\<close>

text \<open>
  A Python \<open>str\<close> is a sequence of Unicode code points. A code point is modelled
  as a natural number (\<open>ord\<close> is the identity), so that \<open>chr(ord(c) + 1)\<close> does not
  wrap around at 255 as an 8-bit character would; \<open>chr\<close> raises \<open>ValueError\<close>
  from \<open>0x110000\<close> on. Strings are compared lexicographically by code point, which is
  also the order of their UTF-8 encodings.
\<close>

type_synonym pystr = "nat list"

abbreviation py :: "string \<Rightarrow> pystr" where
  "py s \<equiv> map of_char s"

datatype py_error =
  IndexError
  | ValueError
  | UnicodeEncodeError
  | MappingError
  | StoreError pystr

definition chr :: "nat \<Rightarrow> py_error + nat" where
  "chr n = (if n < 0x110000 then Inr n else Inl ValueError)"

text \<open>
  \<open>s[:-1] + chr(ord(s[-1]) + 1)\<close>: \<open>s[-1]\<close> raises \<open>IndexError\<close> on the empty
  string, \<open>chr\<close> raises \<open>ValueError\<close> past the last code point.
\<close>

definition increment_last :: "pystr \<Rightarrow> py_error + pystr" where
  "increment_last s =
     (if s = [] then Inl IndexError
      else case chr (last s + 1) of
             Inl e \<Rightarrow> Inl e
           | Inr c \<Rightarrow> Inr (butlast s @ [c]))"

text \<open>Truthiness of an optional integer and of an optional sequence (\<open>if limit:\<close>,
  \<open>if row_prefix:\<close>, \<open>if not row_fields:\<close>): \<open>None\<close>, \<open>0\<close> and the empty sequence
  are false.\<close>

definition truthy_int :: "int option \<Rightarrow> bool" where
  "truthy_int x = (case x of None \<Rightarrow> False | Some n \<Rightarrow> n \<noteq> 0)"

definition truthy_seq :: "'a list option \<Rightarrow> bool" where
  "truthy_seq x = (case x of None \<Rightarrow> False | Some xs \<Rightarrow> xs \<noteq> [])"


section \<open>get\_hbase\_data\_batch\<close>

text \<open>
  The store's scan primitive is external (happybase). It is a parameter of the model:
  a function of the three arguments that change between rounds (\<open>row_start\<close>,
  \<open>row_stop\<close>, \<open>limit\<close>) that returns the rows of the round or raises. The arguments
  that the source passes through unchanged in every round (\<open>columns\<close>, \<open>filter\<close>,
  \<open>timestamp\<close>, \<open>include_timestamp\<close>, \<open>batch_size\<close>, \<open>scan_batching\<close>,
  \<open>sorted_columns\<close>, \<open>reverse\<close>) are part of that function. Row keys are taken as
  already decoded text (\<open>.decode()\<close> is the identity on them).
\<close>

type_synonym 'c row = "pystr \<times> 'c"

type_synonym 'c scan_fn = "pystr option \<Rightarrow> pystr option \<Rightarrow> int \<Rightarrow> py_error + 'c row list"

record scan_params =
  row_start :: "pystr option"
  row_stop :: "pystr option"
  row_prefix :: "pystr option"
  batch_size :: int
  limit :: "int option"

text \<open>One round of the loop: the scan request that was sent and the batch that was
  yielded to the consumer (\<open>[]\<close> when the round yielded nothing).\<close>

datatype 'c round = Round (req_start: "pystr option") (req_stop: "pystr option")
  (req_limit: int) (yielded: "'c row list")

datatype ending = Exhausted | SingleRow | LimitReached | Raised py_error | OutOfFuel

text \<open>Lines 108-110: the bounds derived from \<open>row_prefix\<close>.\<close>

definition derive_bounds :: "scan_params \<Rightarrow> py_error + (pystr option \<times> pystr option)" where
  "derive_bounds p =
     (if truthy_seq (row_prefix p)
      then (case increment_last (the (row_prefix p)) of
              Inl e \<Rightarrow> Inl e
            | Inr stop \<Rightarrow> Inr (row_prefix p, Some stop))
      else Inr (row_start p, row_stop p))"

text \<open>Lines 112-118: the size of the first round.\<close>

definition initial_limit :: "scan_params \<Rightarrow> int" where
  "initial_limit p =
     (if truthy_int (limit p)
      then (if the (limit p) > batch_size p then batch_size p else the (limit p))
      else batch_size p)"

text \<open>
  Lines 120-141: the \<open>while True\<close> loop. The first argument bounds the number of
  rounds; \<open>OutOfFuel\<close> says that the loop was still running when the bound was reached.
\<close>

fun scan_loop :: "nat \<Rightarrow> 'c scan_fn \<Rightarrow> scan_params \<Rightarrow> pystr option \<Rightarrow> pystr option
    \<Rightarrow> int \<Rightarrow> int \<Rightarrow> 'c round list \<times> ending" where
  "scan_loop 0 scan p start stop current_limit current_register = ([], OutOfFuel)"
| "scan_loop (Suc fuel) scan p start stop current_limit current_register =
     (case scan start stop current_limit of
        Inl e \<Rightarrow> ([Round start stop current_limit []], Raised e)
      | Inr data \<Rightarrow>
          if data = [] then ([Round start stop current_limit []], Exhausted)
          else if length data \<le> 1 then ([Round start stop current_limit data], SingleRow)
          else
            let last_record = fst (last data);
                register = current_register + int (length data)
            in if truthy_int (limit p) \<and> register \<ge> the (limit p)
               then ([Round start stop current_limit data], LimitReached)
               else
                 let next_limit = (if truthy_int (limit p)
                                   then min (batch_size p) (the (limit p) - register)
                                   else current_limit)
                 in case increment_last last_record of
                      Inl e \<Rightarrow> ([Round start stop current_limit data], Raised e)
                    | Inr next_start \<Rightarrow>
                        (case scan_loop fuel scan p (Some next_start) stop next_limit register of
                           (rounds, e) \<Rightarrow> (Round start stop current_limit data # rounds, e)))"

definition get_hbase_data_batch :: "nat \<Rightarrow> 'c scan_fn \<Rightarrow> scan_params \<Rightarrow> 'c round list \<times> ending" where
  "get_hbase_data_batch fuel scan p =
     (case derive_bounds p of
        Inl e \<Rightarrow> ([], Raised e)
      | Inr (start, stop) \<Rightarrow> scan_loop fuel scan p start stop (initial_limit p) 0)"

text \<open>The batches that the consumer receives.\<close>

definition batches :: "'c round list \<Rightarrow> 'c row list list" where
  "batches rounds = filter (\<lambda>b. b \<noteq> []) (map yielded rounds)"

text \<open>The number of rows yielded before round \<open>i\<close>.\<close>

definition rows_before :: "'c round list \<Rightarrow> nat \<Rightarrow> int" where
  "rows_before rounds i = int (length (concat (map yielded (take i rounds))))"


subsection \<open>A finite sorted store\<close>

text \<open>
  A store with fixed contents behind the client, as the scan primitive of section 6 of
  the specification sees it. The client refuses a request before it reaches the store:
  a \<open>limit\<close> or \<open>batch_size\<close> below one raises \<open>ValueError\<close> (the size of a request of
  the loop is never above \<open>batch_size\<close>, so the test of the size covers both), and a
  bound that cannot be encoded as UTF-8, because it holds a surrogate, raises
  \<open>UnicodeEncodeError\<close>. Otherwise the store holds the rows of the table in ascending key
  order, and a forward scan returns those with \<open>row_start \<le> key < row_stop\<close>, at most
  \<open>limit\<close> of them. A missing bound does not restrict the range.
\<close>

definition codepoint_ok :: "nat \<Rightarrow> bool" where
  "codepoint_ok c = (c < 0xD800 \<or> (0xDFFF < c \<and> c < 0x110000))"

definition encodable :: "pystr \<Rightarrow> bool" where
  "encodable s = list_all codepoint_ok s"

definition bound_ok :: "pystr option \<Rightarrow> bool" where
  "bound_ok b = (case b of None \<Rightarrow> True | Some s \<Rightarrow> encodable s)"

definition in_range :: "pystr option \<Rightarrow> pystr option \<Rightarrow> pystr \<Rightarrow> bool" where
  "in_range start stop k =
     ((case start of None \<Rightarrow> True | Some s \<Rightarrow> s \<le> k) \<and>
      (case stop of None \<Rightarrow> True | Some e \<Rightarrow> k < e))"

definition store_scan :: "'c row list \<Rightarrow> 'c scan_fn" where
  "store_scan tbl start stop lim =
     (if lim < 1 then Inl ValueError
      else if \<not> (bound_ok start \<and> bound_ok stop) then Inl UnicodeEncodeError
      else Inr (take (nat lim) (filter (\<lambda>r. in_range start stop (fst r)) tbl)))"


text \<open>
  The same store scanned in reverse (\<open>reverse=True\<close>), as HBase does it: the rows from
  \<open>row_start\<close> (included) downwards to \<open>row_stop\<close> (excluded), in descending key order.
\<close>

definition reverse_store_scan :: "'c row list \<Rightarrow> 'c scan_fn" where
  "reverse_store_scan tbl start stop lim =
     (if lim < 1 then Inl ValueError
      else if \<not> (bound_ok start \<and> bound_ok stop) then Inl UnicodeEncodeError
      else Inr (take (nat lim) (rev (filter (\<lambda>r.
        (case start of None \<Rightarrow> True | Some s \<Rightarrow> fst r \<le> s) \<and>
        (case stop of None \<Rightarrow> True | Some e \<Rightarrow> e < fst r)) tbl))))"


subsection \<open>Properties of a run\<close>

text \<open>Each round but the last yielded at least two rows, and the next round starts at the
  key of the last row yielded, its final code point incremented.\<close>

definition advances :: "'c round list \<Rightarrow> bool" where
  "advances rounds = (\<forall>i. Suc i < length rounds \<longrightarrow>
      2 \<le> length (yielded (rounds ! i)) \<and>
      (let k = fst (last (yielded (rounds ! i)))
       in k \<noteq> [] \<and> last k + 1 < 0x110000 \<and>
          req_start (rounds ! Suc i) = Some (butlast k @ [last k + 1])))"

text \<open>A round that yields exactly one row is the last one.\<close>

definition single_row_terminal :: "'c round list \<Rightarrow> ending \<Rightarrow> bool" where
  "single_row_terminal rounds e = (\<forall>i < length rounds.
      length (yielded (rounds ! i)) = 1 \<longrightarrow> Suc i = length rounds \<and> e = SingleRow)"

text \<open>The scan primitive returns at most as many rows as it is asked for.\<close>

definition honours_limit :: "'c scan_fn \<Rightarrow> bool" where
  "honours_limit scan = (\<forall>s t n rows. scan s t n = Inr rows \<longrightarrow> int (length rows) \<le> max 0 n)"

text \<open>A key whose final code point can be incremented to a code point that can be
  encoded: \<open>increment_last\<close> does not raise and the client accepts the new bound.\<close>

definition incrementable :: "pystr \<Rightarrow> bool" where
  "incrementable k = (k \<noteq> [] \<and> codepoint_ok (last k + 1))"

text \<open>The bounds that the caller passes can be encoded, and a prefix can be incremented.\<close>

definition bounds_ok :: "scan_params \<Rightarrow> bool" where
  "bounds_ok p =
     (if truthy_seq (row_prefix p)
      then encodable (the (row_prefix p)) \<and> incrementable (the (row_prefix p))
      else bound_ok (row_start p) \<and> bound_ok (row_stop p))"

text \<open>The keys of a set at or after a start bound, and a scan primitive that only returns
  rows with such keys (a forward scan over a store whose keys are in \<open>S\<close>).\<close>

definition above :: "pystr set \<Rightarrow> pystr option \<Rightarrow> pystr set" where
  "above S start = (case start of None \<Rightarrow> S | Some s \<Rightarrow> {k \<in> S. s \<le> k})"

definition forward_over :: "pystr set \<Rightarrow> 'c scan_fn \<Rightarrow> bool" where
  "forward_over S scan = (\<forall>s t n rows r. scan s t n = Inr rows \<longrightarrow> r \<in> set rows \<longrightarrow>
      fst r \<in> above S s)"

text \<open>Stores and parameters of the examples.\<close>

definition five_rows :: "unit row list" where
  "five_rows = [(py ''k1'', ()), (py ''k2'', ()), (py ''k3'', ()), (py ''k4'', ()), (py ''k5'', ())]"

definition scan_defaults :: scan_params where
  "scan_defaults = \<lparr>row_start = None, row_stop = None, row_prefix = None,
     batch_size = 100000, limit = None\<rparr>"

text \<open>The two rounds of the example: batch size 2 and limit 3 over five rows.\<close>

definition example_rounds :: "unit round list" where
  "example_rounds =
     [Round None None 2 [(py ''k1'', ()), (py ''k2'', ())],
      Round (Some (py ''k3'')) None 1 [(py ''k3'', ())]]"

definition user_rows :: "unit row list" where
  "user_rows = [(py ''user:8'', ()), (py ''user:9'', ()), (py ''user:9abc'', ()), (py ''user:a'', ())]"

text \<open>A store whose second key ends in the last code point, \<open>U+10FFFF\<close>.\<close>

definition overflow_rows :: "unit row list" where
  "overflow_rows = [(py ''k1'', ()), ([107, 0x10FFFF], ())]"

text \<open>Five rows, and the parameters of a call that asks for batches of one row with
  \<open>limit=0\<close>; a prefix that is empty and one that ends in the last code point.\<close>

definition one_row_batches :: scan_params where
  "one_row_batches = \<lparr>row_start = None, row_stop = None, row_prefix = None,
     batch_size = 1, limit = Some 0\<rparr>"

definition empty_prefix :: scan_params where
  "empty_prefix = \<lparr>row_start = Some (py ''a''), row_stop = Some (py ''b''),
     row_prefix = Some [], batch_size = 100000, limit = None\<rparr>"

definition overflow_prefix :: scan_params where
  "overflow_prefix = \<lparr>row_start = None, row_stop = None,
     row_prefix = Some [107, 0x10FFFF], batch_size = 100000, limit = None\<rparr>"

lemmas scan_eval = get_hbase_data_batch_def derive_bounds_def truthy_seq_def truthy_int_def
  initial_limit_def store_scan_def in_range_def increment_last_def chr_def Let_def
  scan_defaults_def bound_ok_def encodable_def codepoint_ok_def


section \<open>save\_to\_hbase\<close>

subsection \<open>Documents\<close>

text \<open>
  The values of a document are scalars; \<open>str\<close> gives their string form. A \<open>dict\<close> is a
  list of key-value pairs in insertion order, with distinct keys. The caller's
  documents are objects on a heap: a document is named by its address, so that
  \<open>d.copy()\<close> (a new object) and \<open>d_.pop(f)\<close> (a change of the object \<open>d_\<close>) are
  distinguished from a change of the caller's object.
\<close>

datatype pyval = PyInt int | PyStr pystr | PyBool bool | PyNone

fun str_nat :: "nat \<Rightarrow> pystr" where
  "str_nat n = (if n < 10 then [48 + n] else str_nat (n div 10) @ [48 + n mod 10])"

declare str_nat.simps [simp del]

definition str_int :: "int \<Rightarrow> pystr" where
  "str_int i = (if i < 0 then py ''-'' @ str_nat (nat (- i)) else str_nat (nat i))"

fun py_str :: "pyval \<Rightarrow> pystr" where
  "py_str (PyInt i) = str_int i"
| "py_str (PyStr s) = s"
| "py_str (PyBool b) = (if b then py ''True'' else py ''False'')"
| "py_str PyNone = py ''None''"

type_synonym pydict = "(pystr \<times> pyval) list"

type_synonym addr = nat

type_synonym heap = "pydict list"

text \<open>\<open>d.copy()\<close>: a new object with the same items.\<close>

definition dict_copy :: "heap \<Rightarrow> addr \<Rightarrow> addr \<times> heap" where
  "dict_copy h d = (length h, h @ [h ! d])"

text \<open>\<open>sep.join(parts)\<close>.\<close>

fun join :: "pystr \<Rightarrow> pystr list \<Rightarrow> pystr" where
  "join sep [] = []"
| "join sep [s] = s"
| "join sep (s # t) = s @ sep @ join sep t"


subsection \<open>Table acquisition\<close>

text \<open>
  What the function does to the store and to standard output, in program order. The
  store is external: \<open>create_table\<close> is a parameter that says, for a table name and
  its column families, whether the call returns (\<open>None\<close>) or raises an exception, given
  by \<open>str(e.__class__)\<close>.
\<close>

datatype event =
  CreateTable pystr "pystr list"
  | Print pystr
  | OpenTable pystr
  | OpenBatch pystr int
  | Put pystr "(pystr \<times> pystr) list"
  | Send

definition already_exists :: pystr where
  "already_exists = py ''<class '' @ [39] @ py ''Hbase_thrift.AlreadyExists'' @ [39] @ py ''>''"

text \<open>Lines 32-33: \<open>if not cf: cf = {"cf": {}}\<close>; only the names of the families are kept.\<close>

definition families :: "pystr list option \<Rightarrow> pystr list" where
  "families cf = (if \<not> truthy_seq cf then [py ''cf''] else the cf)"

text \<open>Lines 31-40. Every \<open>Exception\<close> of \<open>create_table\<close> is caught; \<open>hbase.table\<close> only
  builds the handle, which is the table's name here.\<close>

definition get_h_table :: "(pystr \<Rightarrow> pystr list \<Rightarrow> pystr option) \<Rightarrow> pystr \<Rightarrow> pystr list option
    \<Rightarrow> event list \<times> (py_error + pystr)" where
  "get_h_table create_table table_name cf =
     (let cf' = families cf;
          printed = (case create_table table_name cf' of
                       None \<Rightarrow> []
                     | Some e \<Rightarrow> if e = already_exists then [] else [Print e])
      in (CreateTable table_name cf' # printed @ [OpenTable table_name], Inr table_name))"


subsection \<open>The write loop\<close>

datatype selector = All | Fields "pystr list" | Other

text \<open>The keys of \<open>{cf: {} for cf, _ in cf_mapping}\<close>: each family once, in the order of
  its first occurrence.\<close>

fun dict_keys :: "pystr list \<Rightarrow> pystr list" where
  "dict_keys [] = []"
| "dict_keys (k # ks) = k # filter (\<lambda>x. x \<noteq> k) (dict_keys ks)"

text \<open>Line 68: \<open>[str(d_.pop(f)) if f in d_ else "" for f in row_fields]\<close>, on the object
  at address \<open>d_\<close>.\<close>

fun row_segments :: "heap \<Rightarrow> addr \<Rightarrow> pystr list \<Rightarrow> pystr list \<times> heap" where
  "row_segments h d' [] = ([], h)"
| "row_segments h d' (f # fs) =
     (case map_of (h ! d') f of
        Some v \<Rightarrow>
          (case row_segments (h[d' := AList.delete f (h ! d')]) d' fs of
             (segs, h') \<Rightarrow> (py_str v # segs, h'))
      | None \<Rightarrow>
          (case row_segments h d' fs of
             (segs, h') \<Rightarrow> ([] # segs, h')))"

text \<open>The column id \<open>f"{cf}:{c}"\<close>.\<close>

definition column :: "pystr \<Rightarrow> pystr \<Rightarrow> pystr" where
  "column cf c = cf @ py '':'' @ c"

text \<open>Lines 72-73: \<open>for c, v in d_.items(): values[f"{cf}:{c}"] = str(v)\<close>.\<close>

fun put_all :: "pystr \<Rightarrow> pydict \<Rightarrow> (pystr \<times> pystr) list \<Rightarrow> (pystr \<times> pystr) list" where
  "put_all cf [] vals = vals"
| "put_all cf ((c, v) # items) vals = put_all cf items (AList.update (column cf c) (py_str v) vals)"

text \<open>Lines 75-77: \<open>for c in fields: if c in d_: values[f"{cf}:{c}"] = str(d_[c])\<close>.\<close>

fun put_fields :: "pystr \<Rightarrow> pydict \<Rightarrow> pystr list \<Rightarrow> (pystr \<times> pystr) list \<Rightarrow> (pystr \<times> pystr) list" where
  "put_fields cf d [] vals = vals"
| "put_fields cf d (c # cs) vals =
     (case map_of d c of
        Some v \<Rightarrow> put_fields cf d cs (AList.update (column cf c) (py_str v) vals)
      | None \<Rightarrow> put_fields cf d cs vals)"

text \<open>Lines 70-79: the loop over \<open>cf_mapping\<close>, which reads the working copy \<open>d\<close>.\<close>

fun build_values :: "(pystr \<times> selector) list \<Rightarrow> pydict \<Rightarrow> (pystr \<times> pystr) list
    \<Rightarrow> py_error + (pystr \<times> pystr) list" where
  "build_values [] d vals = Inr vals"
| "build_values ((cf, All) # m) d vals = build_values m d (put_all cf d vals)"
| "build_values ((cf, Fields fs) # m) d vals = build_values m d (put_fields cf d fs vals)"
| "build_values ((cf, Other) # m) d vals = Inl MappingError"

text \<open>Line 65: the automatic row key \<open>f"{uid}~{row_auto}"\<close>.\<close>

definition auto_key :: "pystr \<Rightarrow> nat \<Rightarrow> pystr" where
  "auto_key uid i = uid @ py ''~'' @ str_nat i"

text \<open>Lines 62-81: the loop over the documents and the final \<open>send\<close>. \<open>uid\<close> is the
  string form of the \<open>uuid4\<close> drawn for the call.\<close>

fun write_documents :: "pystr \<Rightarrow> (pystr \<times> selector) list \<Rightarrow> pystr list option \<Rightarrow> heap \<Rightarrow> nat
    \<Rightarrow> addr list \<Rightarrow> heap \<times> event list \<times> (py_error + unit)" where
  "write_documents uid cf_mapping row_fields h row_auto [] = (h, [Send], Inr ())"
| "write_documents uid cf_mapping row_fields h row_auto (d # ds) =
     (case dict_copy h d of
        (d', h1) \<Rightarrow>
          (case (if \<not> truthy_seq row_fields
                 then (auto_key uid row_auto, h1, row_auto + 1)
                 else (case row_segments h1 d' (the row_fields) of
                         (segs, h2) \<Rightarrow> (join (py ''~'') segs, h2, row_auto))) of
             (row, h2, row_auto') \<Rightarrow>
               (case build_values cf_mapping (h2 ! d') [] of
                  Inl e \<Rightarrow> (h2, [], Inl e)
                | Inr vals \<Rightarrow>
                    (case write_documents uid cf_mapping row_fields h2 row_auto' ds of
                       (h3, evs, r) \<Rightarrow> (h3, Put row vals # evs, r)))))"

definition save_to_hbase :: "(pystr \<Rightarrow> pystr list \<Rightarrow> pystr option) \<Rightarrow> pystr \<Rightarrow> heap \<Rightarrow> addr list
    \<Rightarrow> pystr \<Rightarrow> (pystr \<times> selector) list \<Rightarrow> pystr list option \<Rightarrow> int
    \<Rightarrow> heap \<times> event list \<times> (py_error + unit)" where
  "save_to_hbase create_table uid h documents h_table_name cf_mapping row_fields write_size =
     (case get_h_table create_table h_table_name (Some (dict_keys (map fst cf_mapping))) of
        (evs0, Inl e) \<Rightarrow> (h, evs0, Inl e)
      | (evs0, Inr table) \<Rightarrow>
          (case write_documents uid cf_mapping row_fields h 0 documents of
             (h', evs, r) \<Rightarrow> (h', evs0 @ OpenBatch table write_size # evs, r)))"

text \<open>The row keys of the \<open>put\<close> calls of a log, in order.\<close>

fun put_rows :: "event list \<Rightarrow> pystr list" where
  "put_rows [] = []"
| "put_rows (Put row vals # evs) = row # put_rows evs"
| "put_rows (ev # evs) = put_rows evs"

text \<open>The number that a decimal string denotes, and the sequence number after the
  \<open>uid~\<close> of an automatic row key.\<close>

definition nat_of_digits :: "pystr \<Rightarrow> nat" where
  "nat_of_digits s = foldl (\<lambda>a c. 10 * a + (c - 48)) 0 s"

definition sequence_of :: "pystr \<Rightarrow> pystr \<Rightarrow> nat" where
  "sequence_of uid key = nat_of_digits (drop (length uid + 1) key)"

text \<open>The record, the mapping and the environment of the examples.\<close>

definition xy_record :: pydict where
  "xy_record = [(py ''x'', PyInt 1), (py ''y'', PyInt 2)]"

definition xy_mapping :: "(pystr \<times> selector) list" where
  "xy_mapping = [(py ''a'', Fields [py ''x'']), (py ''b'', All)]"

definition bad_mapping :: "(pystr \<times> selector) list" where
  "bad_mapping = [(py ''a'', All), (py ''b'', Other)]"

definition creates :: "pystr \<Rightarrow> pystr list \<Rightarrow> pystr option" where
  "creates name cf = None"

definition io_error :: pystr where
  "io_error = py ''<class '' @ [39] @ py ''Hbase_thrift.IOError'' @ [39] @ py ''>''"

definition fails_with :: "pystr \<Rightarrow> pystr \<Rightarrow> pystr list \<Rightarrow> pystr option" where
  "fails_with e name cf = Some e"

lemmas write_eval = save_to_hbase_def get_h_table_def dict_copy_def column_def truthy_seq_def
  str_int_def str_nat.simps creates_def fails_with_def families_def auto_key_def


section \<open>Theorems about get\_hbase\_data\_batch\<close>

lemma scan_loop_first:
  "scan_loop fuel scan p a b c d = (rounds, e) \<Longrightarrow> rounds \<noteq> [] \<Longrightarrow>
     req_start (hd rounds) = a \<and> req_stop (hd rounds) = b \<and> req_limit (hd rounds) = c"
  by (cases fuel) (auto simp: Let_def split: sum.splits if_splits prod.splits)

lemma increment_last_Inr:
  "increment_last s = Inr t \<Longrightarrow> s \<noteq> [] \<and> last s + 1 < 0x110000 \<and> t = butlast s @ [last s + 1]"
  by (auto simp: increment_last_def chr_def split: if_splits)

lemma scan_loop_advances:
  "scan_loop fuel scan p a b c d = (rounds, e) \<Longrightarrow> advances rounds"
proof (induction fuel arbitrary: a c d rounds e)
  case 0
  then show ?case by (simp add: advances_def)
next
  case (Suc fuel)
  show ?case
  proof (cases "\<exists>r rs. rounds = r # rs \<and> rs \<noteq> []")
    case False
    then show ?thesis by (cases rounds) (auto simp: advances_def)
  next
    case True
    then obtain r rs where rr: "rounds = r # rs" "rs \<noteq> []" by blast
    with Suc.prems obtain data s c' d' where
      d: "scan a b c = Inr data" "2 \<le> length data" "r = Round a b c data"
         "increment_last (fst (last data)) = Inr s"
         "scan_loop fuel scan p (Some s) b c' d' = (rs, e)"
      by (auto simp: Let_def split: sum.splits if_splits prod.splits)
    from Suc.IH[OF d(5)] have ih: "advances rs" .
    from scan_loop_first[OF d(5) rr(2)] have hd: "req_start (hd rs) = Some s" by simp
    show ?thesis unfolding advances_def
    proof (intro allI impI)
      fix i assume i: "Suc i < length rounds"
      show "2 \<le> length (yielded (rounds ! i)) \<and>
        (let k = fst (last (yielded (rounds ! i)))
         in k \<noteq> [] \<and> last k + 1 < 0x110000 \<and>
          req_start (rounds ! Suc i) = Some (butlast k @ [last k + 1]))"
      proof (cases i)
        case 0
        with rr d hd increment_last_Inr[OF d(4)] show ?thesis
          by (simp add: Let_def hd_conv_nth)
      next
        case (Suc j)
        with i rr ih show ?thesis by (simp add: advances_def)
      qed
    qed
  qed
qed

lemma scan_loop_single:
  "scan_loop fuel scan p a b c d = (rounds, e) \<Longrightarrow> single_row_terminal rounds e"
proof (induction fuel arbitrary: a c d rounds e)
  case 0
  then show ?case by (simp add: single_row_terminal_def)
next
  case (Suc fuel)
  show ?case
  proof (cases "\<exists>data s c' d' rs. rounds = Round a b c data # rs \<and> 2 \<le> length data \<and>
       scan_loop fuel scan p (Some s) b c' d' = (rs, e)")
    case True
    then obtain data s c' d' rs where d: "rounds = Round a b c data # rs" "2 \<le> length data"
       "scan_loop fuel scan p (Some s) b c' d' = (rs, e)" by blast
    from Suc.IH[OF d(3)] have "single_row_terminal rs e" .
    with d(1,2) show ?thesis
      by (auto simp: single_row_terminal_def nth_Cons split: nat.splits)
  next
    case False
    with Suc.prems show ?thesis
      by (auto simp: single_row_terminal_def Let_def nth_Cons split: sum.splits if_splits prod.splits nat.splits)
  qed
qed

lemma rows_before_0: "rows_before rounds 0 = 0"
  by (simp add: rows_before_def)

lemma rows_before_Cons: "rows_before (r # rs) (Suc j) = int (length (yielded r)) + rows_before rs j"
  by (simp add: rows_before_def)

lemma scan_loop_sizes:
  "scan_loop fuel scan p a b c d = (rounds, e) \<Longrightarrow> limit p = Some L \<Longrightarrow> L \<noteq> 0 \<Longrightarrow>
   c = min (batch_size p) (L - d) \<Longrightarrow> i < length rounds \<Longrightarrow>
   req_limit (rounds ! i) = min (batch_size p) (L - (d + rows_before rounds i))"
proof (induction fuel arbitrary: a c d rounds i)
  case 0
  then show ?case by simp
next
  case (Suc fuel)
  show ?case
  proof (cases i)
    case 0
    with Suc.prems show ?thesis
      by (auto simp: Let_def rows_before_0 split: sum.splits if_splits prod.splits)
  next
    case (Suc j)
    with Suc.prems(1,5) obtain data s rs where
      d: "rounds = Round a b c data # rs"
         "scan_loop fuel scan p (Some s) b (min (batch_size p) (L - (d + int (length data)))) (d + int (length data)) = (rs, e)"
      using Suc.prems(2,3)
      by (auto simp: Let_def truthy_int_def split: sum.splits if_splits prod.splits)
    from Suc.prems(5) Suc d(1) have j: "j < length rs" by simp
    from Suc.IH[OF d(2) Suc.prems(2,3) refl j] Suc d(1) show ?thesis
      by (simp add: rows_before_Cons add.assoc)
  qed
qed

lemma scan_loop_total:
  "scan_loop fuel scan p a b c d = (rounds, e) \<Longrightarrow> limit p = Some L \<Longrightarrow> 
   honours_limit scan \<Longrightarrow> c \<le> L - d \<Longrightarrow> d \<le> L \<Longrightarrow> 0 < L \<Longrightarrow>
   d + int (length (concat (map yielded rounds))) \<le> L"
proof (induction fuel arbitrary: a c d rounds)
  case 0
  then show ?case by simp
next
  case (Suc fuel)
  show ?case
  proof (cases "scan a b c")
    case (Inl x)
    with Suc.prems show ?thesis by auto
  next
    case (Inr data)
    with Suc.prems(3) have len: "int (length data) \<le> max 0 c" by (auto simp: honours_limit_def)
    with Suc.prems(4,5) have le: "d + int (length data) \<le> L" by simp
    show ?thesis
    proof (cases "\<exists>s rs. rounds = Round a b c data # rs \<and> d + int (length data) < L \<and>
       scan_loop fuel scan p (Some s) b (min (batch_size p) (L - (d + int (length data)))) (d + int (length data)) = (rs, e)")
      case True
      then obtain s rs where d: "rounds = Round a b c data # rs" "d + int (length data) < L"
         "scan_loop fuel scan p (Some s) b (min (batch_size p) (L - (d + int (length data)))) (d + int (length data)) = (rs, e)"
        by blast
      from Suc.IH[OF d(3) Suc.prems(2,3)] d(2) Suc.prems(6)
      have "d + int (length data) + int (length (concat (map yielded rs))) \<le> L" by simp
      with d(1) show ?thesis by simp
    next
      case False
      with Suc.prems(1,2,6) Inr le show ?thesis
        by (auto simp: Let_def truthy_int_def split: sum.splits if_splits prod.splits)
    qed
  qed
qed

lemma concat_batches: "concat (batches rounds) = concat (map yielded rounds)"
  by (induction rounds) (auto simp: batches_def)

lemma prefix_range_aux:
  "(b @ [c] \<le> k \<and> k < b @ [Suc c]) = (take (Suc (length b)) k = b @ [c])"
proof (induction b arbitrary: k)
  case Nil
  show ?case by (cases k) auto
next
  case (Cons x b)
  show ?case
  proof (cases k)
    case Nil
    then show ?thesis by simp
  next
    case (Cons d r)
    with Cons.IH[of r] show ?thesis by auto
  qed
qed

lemma prefix_range:
  assumes "pre \<noteq> []"
  shows "in_range (Some pre) (Some (butlast pre @ [last pre + 1])) k = (take (length pre) k = pre)"
proof -
  from assms obtain b c where pre: "pre = b @ [c]" by (cases pre rule: rev_cases) auto
  show ?thesis using prefix_range_aux[of b c k] by (simp add: pre in_range_def)
qed

lemma less_snoc: "b @ [c] < b @ [Suc c]"
  by (induction b) auto

lemma increment_last_greater: "increment_last k = Inr s \<Longrightarrow> k < s"
proof -
  assume a: "increment_last k = Inr s"
  then have k: "k \<noteq> []" and s: "s = butlast k @ [last k + 1]"
    by (auto simp: increment_last_def chr_def split: if_splits)
  from k obtain b c where "k = b @ [c]" by (cases k rule: rev_cases) auto
  with s less_snoc[of b c] show ?thesis by simp
qed

lemma increment_last_ok: "incrementable k \<Longrightarrow> \<exists>s. increment_last k = Inr s"
  by (auto simp: incrementable_def codepoint_ok_def increment_last_def chr_def)

lemma increment_last_errors: "increment_last k = Inl err \<Longrightarrow> 
   \<not> incrementable k \<and> (err = IndexError \<or> err = ValueError)"
  by (auto simp: incrementable_def codepoint_ok_def increment_last_def chr_def split: if_splits)

lemma scan_loop_step:
  assumes "scan_loop (Suc fuel) scan p a b c d = (rounds, e)"
  shows "e \<in> {Exhausted, SingleRow, LimitReached} \<or>
     (\<exists>err. e = Raised err \<and> scan a b c = Inl err) \<or>
     (\<exists>err data. e = Raised err \<and> scan a b c = Inr data \<and> data \<noteq> [] \<and>
        increment_last (fst (last data)) = Inl err) \<or>
     (\<exists>data s c' d' rs. scan a b c = Inr data \<and> data \<noteq> [] \<and>
        increment_last (fst (last data)) = Inr s \<and>
        \<not> (truthy_int (limit p) \<and> the (limit p) \<le> d + int (length data)) \<and>
        c' = (if truthy_int (limit p)
              then min (batch_size p) (the (limit p) - (d + int (length data))) else c) \<and>
        scan_loop fuel scan p (Some s) b c' d' = (rs, e))"
  using assms by (auto simp: Let_def split: sum.splits if_splits prod.splits)

lemma scan_loop_terminates:
  assumes fin: "finite S" and fwd: "forward_over S scan"
  shows "card (above S a) < fuel \<Longrightarrow> snd (scan_loop fuel scan p a b c d) \<noteq> OutOfFuel"
proof (induction fuel arbitrary: a c d)
  case 0
  then show ?case by simp
next
  case (Suc fuel)
  obtain rounds e where r: "scan_loop (Suc fuel) scan p a b c d = (rounds, e)"
    by (cases "scan_loop (Suc fuel) scan p a b c d")
  have "e \<noteq> OutOfFuel"
  proof
    assume e: "e = OutOfFuel"
    with scan_loop_step[OF r] obtain data s c' d' rs where
      sc: "scan a b c = Inr data" and ne: "data \<noteq> []"
      and inc: "increment_last (fst (last data)) = Inr s"
      and rec: "scan_loop fuel scan p (Some s) b c' d' = (rs, e)"
      by auto
    let ?k = "fst (last data)"
    from ne have "last data \<in> set data" by simp
    with fwd sc have kin: "?k \<in> above S a" unfolding forward_over_def by blast
    from increment_last_greater[OF inc] have lt: "?k < s" .
    have sub: "above S (Some s) \<subseteq> above S a - {?k}"
      using kin lt by (auto simp: above_def split: option.splits)
    have "finite (above S a)" using fin by (auto simp: above_def split: option.splits)
    with sub kin have "card (above S (Some s)) < card (above S a)"
      by (meson card_Diff1_less card_mono finite_Diff le_less_trans)
    with Suc.prems have "card (above S (Some s)) < fuel" by simp
    from Suc.IH[OF this, of c' d'] rec e show False by simp
  qed
  with r show ?case by simp
qed

lemma scan_loop_more_fuel:
  "snd (scan_loop n scan p a b c d) \<noteq> OutOfFuel \<Longrightarrow>
   scan_loop (n + m) scan p a b c d = scan_loop n scan p a b c d"
proof (induction n arbitrary: a c d)
  case 0
  then show ?case by simp
next
  case (Suc n)
  then show ?case
    by (auto simp: Let_def split: sum.splits prod.splits if_splits)
qed

lemma store_scan_rows:
  "store_scan tbl s t n = Inr rows \<Longrightarrow> r \<in> set rows \<Longrightarrow>
   r \<in> set tbl \<and> in_range s t (fst r)"
  by (auto simp: store_scan_def split: if_splits dest!: in_set_takeD)

lemma store_scan_forward: "forward_over (fst ` set tbl) (store_scan tbl)"
  unfolding forward_over_def
proof (intro allI impI)
  fix s t n rows r
  assume "store_scan tbl s t n = Inr rows" "r \<in> set rows"
  from store_scan_rows[OF this] show "fst r \<in> above (fst ` set tbl) s"
    by (auto simp: above_def in_range_def split: option.splits)
qed

lemma store_scan_raises:
  "store_scan tbl s t n = Inl err \<Longrightarrow> err = ValueError \<or> err = UnicodeEncodeError"
  by (auto simp: store_scan_def split: if_splits)

lemma store_scan_accepts:
  "bound_ok s \<Longrightarrow> bound_ok t \<Longrightarrow> 1 \<le> n \<Longrightarrow> \<exists>rows. store_scan tbl s t n = Inr rows"
  by (simp add: store_scan_def)

lemma encodable_increment:
  assumes "encodable k" "incrementable k" "increment_last k = Inr s"
  shows "encodable s"
proof -
  from increment_last_Inr[OF assms(3)] have s: "s = butlast k @ [last k + 1]" by simp
  from assms(1) have "list_all codepoint_ok (butlast k)"
    by (auto simp: encodable_def list_all_iff dest: in_set_butlastD)
  with assms(2) show ?thesis by (simp add: s encodable_def incrementable_def)
qed

lemma scan_loop_errors:
  assumes raises: "\<forall>s t n err. scan s t n = Inl err \<longrightarrow> err = ValueError \<or> err = UnicodeEncodeError"
  shows "snd (scan_loop fuel scan p a b c d) \<in>
     {Exhausted, SingleRow, LimitReached, Raised IndexError, Raised ValueError,
      Raised UnicodeEncodeError, OutOfFuel}"
proof (induction fuel arbitrary: a c d)
  case 0
  show ?case by simp
next
  case (Suc fuel)
  obtain rounds e where r: "scan_loop (Suc fuel) scan p a b c d = (rounds, e)"
    by (cases "scan_loop (Suc fuel) scan p a b c d")
  have "e \<in> {Exhausted, SingleRow, LimitReached, Raised IndexError, Raised ValueError,
      Raised UnicodeEncodeError, OutOfFuel}"
    using scan_loop_step[OF r]
  proof (elim disjE exE conjE)
    assume "e \<in> {Exhausted, SingleRow, LimitReached}"
    then show ?thesis by auto
  next
    fix err assume "e = Raised err" "scan a b c = Inl err"
    with raises show ?thesis by auto
  next
    fix err data
    assume "e = Raised err" "increment_last (fst (last data)) = Inl err"
    with increment_last_errors show ?thesis by auto
  next
    fix data s c' d' rs
    assume "scan_loop fuel scan p (Some s) b c' d' = (rs, e)"
    with Suc.IH[of "Some s" c' d'] show ?thesis by simp
  qed
  with r show ?case by simp
qed

lemma scan_loop_normal:
  assumes ok: "\<forall>s t n rows r. scan s t n = Inr rows \<longrightarrow> r \<in> set rows \<longrightarrow>
        encodable (fst r) \<and> incrementable (fst r)"
    and accepts: "\<forall>s t n. bound_ok s \<and> bound_ok t \<and> 1 \<le> n \<longrightarrow> (\<exists>rows. scan s t n = Inr rows)"
    and bs: "1 \<le> batch_size p"
    and lim: "limit p = None \<or> 0 \<le> the (limit p)"
    and stop: "bound_ok b"
  shows "bound_ok a \<Longrightarrow> 1 \<le> c \<Longrightarrow>
     snd (scan_loop fuel scan p a b c d) \<in> {Exhausted, SingleRow, LimitReached, OutOfFuel}"
proof (induction fuel arbitrary: a c d)
  case 0
  show ?case by simp
next
  case (Suc fuel)
  obtain rounds e where r: "scan_loop (Suc fuel) scan p a b c d = (rounds, e)"
    by (cases "scan_loop (Suc fuel) scan p a b c d")
  from accepts Suc.prems stop obtain rows where acc: "scan a b c = Inr rows" by blast
  have "e \<in> {Exhausted, SingleRow, LimitReached, OutOfFuel}"
    using scan_loop_step[OF r]
  proof (elim disjE exE conjE)
    assume "e \<in> {Exhausted, SingleRow, LimitReached}"
    then show ?thesis by auto
  next
    fix err assume "scan a b c = Inl err"
    with acc show ?thesis by simp
  next
    fix err data
    assume sc: "scan a b c = Inr data" and ne: "data \<noteq> []"
      and inc: "increment_last (fst (last data)) = Inl err"
    from ne have "last data \<in> set data" by simp
    with ok sc have "incrementable (fst (last data))" by blast
    with increment_last_errors[OF inc] show ?thesis by simp
  next
    fix data s c' d' rs
    assume sc: "scan a b c = Inr data" and ne: "data \<noteq> []"
      and inc: "increment_last (fst (last data)) = Inr s"
      and nl: "\<not> (truthy_int (limit p) \<and> the (limit p) \<le> d + int (length data))"
      and c': "c' = (if truthy_int (limit p)
              then min (batch_size p) (the (limit p) - (d + int (length data))) else c)"
      and rec: "scan_loop fuel scan p (Some s) b c' d' = (rs, e)"
    from ne have "last data \<in> set data" by simp
    with ok sc have "encodable (fst (last data))" "incrementable (fst (last data))" by blast+
    from encodable_increment[OF this inc] have a': "bound_ok (Some s)" by (simp add: bound_ok_def)
    from c' nl bs Suc.prems(2) have "1 \<le> c'" by (auto simp: min_def)
    from Suc.IH[OF a' this, of d'] rec show ?thesis by simp
  qed
  with r show ?case by simp
qed

lemma scan_loop_stop:
  "scan_loop fuel scan p a b c d = (rounds, e) \<Longrightarrow> r \<in> set rounds \<Longrightarrow> req_stop r = b"
proof (induction fuel arbitrary: a c d rounds)
  case 0
  then show ?case by simp
next
  case (Suc fuel)
  from Suc.prems Suc.IH show ?case
    by (auto simp: Let_def split: sum.splits if_splits prod.splits)
qed

lemma derive_bounds_prefix:
  assumes "row_prefix p = Some pre" "pre \<noteq> []" "last pre < 0x10FFFF"
  shows "derive_bounds p = Inr (Some pre, Some (butlast pre @ [last pre + 1]))"
  using assms by (simp add: derive_bounds_def truthy_seq_def increment_last_def chr_def)

lemma five_rows_run:
  "get_hbase_data_batch (Suc (Suc (Suc 0))) (store_scan five_rows)
       (scan_defaults\<lparr>batch_size := 2, limit := Some 3\<rparr>) = (example_rounds, SingleRow)"
  by (simp add: scan_eval five_rows_def example_rounds_def)


subsection \<open>Cursor advancement\<close>

text \<open>
  Claim C2. Whatever the scan primitive returns: every round that is followed by another
  round yielded at least two rows, and the next round's \<open>row_start\<close> is the key of the
  last row yielded with its final code point incremented by one; a round that yields
  exactly one row is the last round, and the generator ends there in the single-row
  state, without asking the store whether further rows exist.
\<close>

theorem cursor_advancement:
  assumes "get_hbase_data_batch fuel scan p = (rounds, e)"
  shows "(\<forall>i. Suc i < length rounds \<longrightarrow>
            2 \<le> length (yielded (rounds ! i)) \<and>
            (let k = fst (last (yielded (rounds ! i)))
             in k \<noteq> [] \<and> last k + 1 < 0x110000 \<and>
                req_start (rounds ! Suc i) = Some (butlast k @ [last k + 1]))) \<and>
         (\<forall>i < length rounds. length (yielded (rounds ! i)) = 1 \<longrightarrow>
            Suc i = length rounds \<and> e = SingleRow)"
proof (cases "derive_bounds p")
  case (Inl x)
  with assms show ?thesis by (simp add: get_hbase_data_batch_def)
next
  case (Inr bs)
  obtain a b where "bs = (a, b)" by (cases bs)
  with Inr assms have sl: "scan_loop fuel scan p a b (initial_limit p) 0 = (rounds, e)"
    by (simp add: get_hbase_data_batch_def)
  from scan_loop_advances[OF sl] scan_loop_single[OF sl] show ?thesis
    unfolding advances_def single_row_terminal_def by blast
qed

text \<open>The example of the claim: rows \<open>k1\<close> to \<open>k5\<close>, batch size 2, limit 3. The rounds
  return \<open>[k1, k2]\<close> and \<open>[k3]\<close>; the second round starts at \<open>k3\<close>, and the generator
  stops after it although \<open>k4\<close> and \<open>k5\<close> are in the range.\<close>

theorem cursor_advancement_witness:
  "get_hbase_data_batch (Suc (Suc (Suc 0))) (store_scan five_rows)
       (scan_defaults\<lparr>batch_size := 2, limit := Some 3\<rparr>) = (example_rounds, SingleRow) \<and>
   req_start (example_rounds ! Suc 0) = Some (py ''k3'') \<and>
   butlast (py ''k2'') @ [last (py ''k2'') + 1] = py ''k3'' \<and>
   length (yielded (example_rounds ! Suc 0)) = 1 \<and>
   Suc (Suc 0) = length example_rounds"
  using cursor_advancement[OF five_rows_run] five_rows_run
  by (simp add: example_rounds_def)


subsection \<open>Limit reconciliation\<close>

text \<open>
  Claim C3. With a limit \<open>L\<close> set (\<open>if limit:\<close> holds), the size requested in every
  round is \<open>min(batch_size, L - rows returned so far)\<close>; if \<open>L\<close> is positive and the scan
  primitive returns at most as many rows as it is asked for, the rows yielded over all
  batches are at most \<open>L\<close>. With batch size 100 and limit 150, a first round that
  returns 100 rows is followed by a round of size 50.
\<close>

theorem limit_reconciliation:
  assumes "limit p = Some L" "L \<noteq> 0" "get_hbase_data_batch fuel scan p = (rounds, e)"
  shows "(\<forall>i<length rounds.
            req_limit (rounds ! i) = min (batch_size p) (L - rows_before rounds i)) \<and>
         (0 < L \<and> (\<forall>s t n rows. scan s t n = Inr rows \<longrightarrow> int (length rows) \<le> max 0 n)
            \<longrightarrow> int (length (concat (batches rounds))) \<le> L) \<and>
         (batch_size p = 100 \<and> L = 150 \<and> 1 < length rounds \<and>
          length (yielded (rounds ! 0)) = 100
            \<longrightarrow> req_limit (rounds ! 0) = 100 \<and> req_limit (rounds ! 1) = 50)"
proof (cases "derive_bounds p")
  case (Inl x)
  with assms show ?thesis by (simp add: get_hbase_data_batch_def batches_def)
next
  case (Inr bs)
  obtain a b where bs: "bs = (a, b)" by (cases bs)
  with Inr assms have sl: "scan_loop fuel scan p a b (initial_limit p) 0 = (rounds, e)"
    by (simp add: get_hbase_data_batch_def)
  have il: "initial_limit p = min (batch_size p) (L - 0)"
    using assms(1,2) by (simp add: initial_limit_def truthy_int_def min_def)
  have 1: "\<forall>i<length rounds.
      req_limit (rounds ! i) = min (batch_size p) (L - rows_before rounds i)"
    using scan_loop_sizes[OF sl assms(1,2) il] by simp
  have 2: "int (length (concat (batches rounds))) \<le> L" if "0 < L" "honours_limit scan"
    using scan_loop_total[OF sl assms(1) that(2)] il that(1) by (simp add: concat_batches)
  have 3: "req_limit (rounds ! 0) = 100 \<and> req_limit (rounds ! 1) = 50"
    if h: "batch_size p = 100" "L = 150" "1 < length rounds" "length (yielded (rounds ! 0)) = 100"
  proof -
    from h(3) have pos: "0 < length rounds" by linarith
    then obtain r rs where rr: "rounds = r # rs" by (cases rounds) auto
    with h(4) have rb: "rows_before rounds 1 = 100"
      by (simp add: rows_before_def)
    from 1 h(3) have r1: "req_limit (rounds ! 1) = min (batch_size p) (L - rows_before rounds 1)"
      by blast
    from 1 pos have r0: "req_limit (rounds ! 0) = min (batch_size p) (L - rows_before rounds 0)"
      by blast
    from rb r1 r0 h(1,2) show ?thesis by (simp add: rows_before_0)
  qed
  from 1 2 3 show ?thesis unfolding honours_limit_def by blast
qed

lemma store_scan_honours_limit:
  "store_scan tbl s t n = Inr rows \<Longrightarrow> int (length rows) \<le> max 0 n"
  by (auto simp: store_scan_def split: if_splits)

text \<open>Batch size 2 and limit 3 over five rows: the sizes requested are 2 and 1, and
  three rows are yielded.\<close>

theorem limit_reconciliation_witness:
  "limit (scan_defaults\<lparr>batch_size := 2, limit := Some 3\<rparr>) = Some 3 \<and> (3::int) \<noteq> 0 \<and>
   get_hbase_data_batch (Suc (Suc (Suc 0))) (store_scan five_rows)
       (scan_defaults\<lparr>batch_size := 2, limit := Some 3\<rparr>) = (example_rounds, SingleRow) \<and>
   req_limit (example_rounds ! 0) = min 2 (3 - rows_before example_rounds 0) \<and>
   req_limit (example_rounds ! 1) = min 2 (3 - rows_before example_rounds 1) \<and>
   map req_limit example_rounds = [2, 1] \<and>
   int (length (concat (batches example_rounds))) \<le> 3"
proof -
  have l: "limit (scan_defaults\<lparr>batch_size := 2, limit := Some 3\<rparr>) = Some 3" by simp
  have n: "(3::int) \<noteq> 0" by simp
  have h: "\<forall>s t n rows. store_scan five_rows s t n = Inr rows \<longrightarrow> int (length rows) \<le> max 0 n"
    using store_scan_honours_limit by blast
  have len: "0 < length example_rounds" "1 < length example_rounds"
    by (simp_all add: example_rounds_def)
  note T = limit_reconciliation[OF l n five_rows_run]
  from T have A: "\<forall>i<length example_rounds. req_limit (example_rounds ! i) =
      min (batch_size (scan_defaults\<lparr>batch_size := 2, limit := Some 3\<rparr>))
        (3 - rows_before example_rounds i)"
    by blast
  from A len(1) have a0: "req_limit (example_rounds ! 0) = min 2 (3 - rows_before example_rounds 0)"
    by simp
  from A len(2) have a1: "req_limit (example_rounds ! 1) = min 2 (3 - rows_before example_rounds 1)"
    by simp
  from T h have B: "int (length (concat (batches example_rounds))) \<le> 3"
    by simp
  have C: "map req_limit example_rounds = [2, 1]"
    by (simp add: example_rounds_def)
  from l n five_rows_run a0 a1 B C show ?thesis by blast
qed


subsection \<open>A limit of zero\<close>

lemma scan_loop_no_limit:
  "\<not> truthy_int (limit p) \<Longrightarrow> scan_loop fuel scan p a b c d = (rounds, e) \<Longrightarrow>
   e \<noteq> LimitReached \<and> (\<forall>r \<in> set rounds. req_limit r = c)"
proof (induction fuel arbitrary: a d rounds e)
  case 0
  then show ?case by simp
next
  case (Suc fuel)
  from Suc.prems(2) Suc.prems(1) Suc.IH[OF Suc.prems(1)] show ?case
    by (auto simp: Let_def split: sum.splits if_splits prod.splits)
qed

lemma scan_loop_first_batch:
  "scan_loop (Suc fuel) scan p a b c d = (rounds, e) \<Longrightarrow> scan a b c = Inr data \<Longrightarrow>
   yielded (hd rounds) = data"
  by (auto simp: Let_def split: sum.splits if_splits prod.splits)

text \<open>
  Claim C10, as amended. The limit is only tested for truthiness, so \<open>limit=0\<close> behaves
  exactly as \<open>limit=None\<close>: the same requests are sent and the same batches are yielded,
  for every scan primitive and all other arguments. The limit never ends the scan, every
  round asks for \<open>batch_size\<close> rows, and the first batch is what the store returns for
  such a request, not an empty sequence. Which rows are yielded is decided by the rules
  of a scan without a limit.
\<close>

theorem limit_zero_is_no_limit:
  "get_hbase_data_batch fuel scan (p\<lparr>limit := Some 0\<rparr>) =
     get_hbase_data_batch fuel scan (p\<lparr>limit := None\<rparr>) \<and>
   snd (get_hbase_data_batch fuel scan (p\<lparr>limit := Some 0\<rparr>)) \<noteq> LimitReached \<and>
   (\<forall>r \<in> set (fst (get_hbase_data_batch fuel scan (p\<lparr>limit := Some 0\<rparr>))).
      req_limit r = batch_size p) \<and>
   (\<forall>a b data. 0 < fuel \<and> derive_bounds p = Inr (a, b) \<and> scan a b (batch_size p) = Inr data \<longrightarrow>
      yielded (hd (fst (get_hbase_data_batch fuel scan (p\<lparr>limit := Some 0\<rparr>)))) = data)"
proof -
  let ?p = "p\<lparr>limit := Some 0\<rparr>"
  have eq: "scan_loop fuel scan ?p a b c d =
        scan_loop fuel scan (p\<lparr>limit := None\<rparr>) a b c d" for a b c d
  proof (induction fuel arbitrary: a b c d)
    case 0
    show ?case by simp
  next
    case (Suc n)
    show ?case by (simp add: truthy_int_def Let_def Suc split: sum.splits)
  qed
  have 1: "get_hbase_data_batch fuel scan ?p = get_hbase_data_batch fuel scan (p\<lparr>limit := None\<rparr>)"
    using eq
    by (simp add: get_hbase_data_batch_def derive_bounds_def initial_limit_def truthy_int_def
        split: sum.splits)
  have nt: "\<not> truthy_int (limit ?p)" by (simp add: truthy_int_def)
  have il: "initial_limit ?p = batch_size p" by (simp add: initial_limit_def truthy_int_def)
  have db: "derive_bounds ?p = derive_bounds p"
    by (simp add: derive_bounds_def split: sum.splits)
  obtain rounds e where g: "get_hbase_data_batch fuel scan ?p = (rounds, e)"
    by (cases "get_hbase_data_batch fuel scan ?p")
  have 2: "e \<noteq> LimitReached \<and> (\<forall>r \<in> set rounds. req_limit r = batch_size p)"
  proof (cases "derive_bounds p")
    case (Inl err)
    with g db show ?thesis by (auto simp: get_hbase_data_batch_def)
  next
    case (Inr bs)
    obtain a b where "bs = (a, b)" by (cases bs)
    with Inr g db il have "scan_loop fuel scan ?p a b (batch_size p) 0 = (rounds, e)"
      by (simp add: get_hbase_data_batch_def)
    from scan_loop_no_limit[OF nt this] show ?thesis .
  qed
  have 3: "yielded (hd rounds) = data"
    if h: "0 < fuel" "derive_bounds p = Inr (a, b)" "scan a b (batch_size p) = Inr data"
    for a b data
  proof -
    from h(1) obtain n where n: "fuel = Suc n" by (cases fuel) auto
    from g db il h(2) n have "scan_loop (Suc n) scan ?p a b (batch_size p) 0 = (rounds, e)"
      by (simp add: get_hbase_data_batch_def)
    from scan_loop_first_batch[OF this h(3)] show ?thesis .
  qed
  from 2 g have f2: "snd (get_hbase_data_batch fuel scan ?p) \<noteq> LimitReached \<and>
      (\<forall>r \<in> set (fst (get_hbase_data_batch fuel scan ?p)). req_limit r = batch_size p)"
    by simp
  from 3 g have f3: "\<forall>a b data. 0 < fuel \<and> derive_bounds p = Inr (a, b) \<and>
      scan a b (batch_size p) = Inr data \<longrightarrow>
      yielded (hd (fst (get_hbase_data_batch fuel scan ?p))) = data"
    by simp
  from 1 f2 f3 show ?thesis by blast
qed

text \<open>With \<open>limit=0\<close> and batch size 2 over five rows, three rounds of size 2 yield all
  five rows.\<close>

theorem limit_zero_is_no_limit_witness:
  "get_hbase_data_batch (Suc (Suc (Suc (Suc 0)))) (store_scan five_rows)
       (scan_defaults\<lparr>batch_size := 2, limit := Some 0\<rparr>) =
   get_hbase_data_batch (Suc (Suc (Suc (Suc 0)))) (store_scan five_rows)
       (scan_defaults\<lparr>batch_size := 2, limit := None\<rparr>) \<and>
   snd (get_hbase_data_batch (Suc (Suc (Suc (Suc 0)))) (store_scan five_rows)
       (scan_defaults\<lparr>batch_size := 2, limit := Some 0\<rparr>)) \<noteq> LimitReached \<and>
   map req_limit (fst (get_hbase_data_batch (Suc (Suc (Suc (Suc 0)))) (store_scan five_rows)
       (scan_defaults\<lparr>batch_size := 2, limit := Some 0\<rparr>))) = [2, 2, 2] \<and>
   concat (batches (fst (get_hbase_data_batch (Suc (Suc (Suc (Suc 0)))) (store_scan five_rows)
       (scan_defaults\<lparr>batch_size := 2, limit := Some 0\<rparr>)))) = five_rows"
proof -
  let ?f = "Suc (Suc (Suc (Suc 0)))"
  note T = limit_zero_is_no_limit[of ?f "store_scan five_rows" "scan_defaults\<lparr>batch_size := 2\<rparr>"]
  have v: "get_hbase_data_batch ?f (store_scan five_rows)
       (scan_defaults\<lparr>batch_size := 2, limit := None\<rparr>) =
     ([Round None None 2 [(py ''k1'', ()), (py ''k2'', ())],
       Round (Some (py ''k3'')) None 2 [(py ''k3'', ()), (py ''k4'', ())],
       Round (Some (py ''k5'')) None 2 [(py ''k5'', ())]], SingleRow)"
    by (simp add: scan_eval five_rows_def)
  have e: "get_hbase_data_batch ?f (store_scan five_rows)
       (scan_defaults\<lparr>batch_size := 2, limit := Some 0\<rparr>) =
     get_hbase_data_batch ?f (store_scan five_rows)
       (scan_defaults\<lparr>batch_size := 2, limit := None\<rparr>)"
    by (rule T[THEN conjunct1])
  have n: "snd (get_hbase_data_batch ?f (store_scan five_rows)
       (scan_defaults\<lparr>batch_size := 2, limit := Some 0\<rparr>)) \<noteq> LimitReached"
    by (rule T[THEN conjunct2, THEN conjunct1])
  from e v have m: "map req_limit (fst (get_hbase_data_batch ?f (store_scan five_rows)
       (scan_defaults\<lparr>batch_size := 2, limit := Some 0\<rparr>))) = [2, 2, 2]" by simp
  from e v have c: "concat (batches (fst (get_hbase_data_batch ?f (store_scan five_rows)
       (scan_defaults\<lparr>batch_size := 2, limit := Some 0\<rparr>)))) = five_rows"
    by (simp add: batches_def five_rows_def)
  from e n m c show ?thesis by blast
qed

text \<open>
  The claim as stated says that every row is yielded. With \<open>limit=0\<close> and batch size 1
  the first batch has one row, which ends the scan: of five rows only \<open>k1\<close> is yielded.
\<close>

theorem limit_zero_counterexample:
  "get_hbase_data_batch (Suc (Suc 0)) (store_scan five_rows) one_row_batches =
     ([Round None None 1 [(py ''k1'', ())]], SingleRow)"
  by (simp add: scan_eval five_rows_def one_row_batches_def)


subsection \<open>Prefix range\<close>

text \<open>
  Claim C6, as amended. When a non-empty \<open>row_prefix\<close> is given whose last code point
  is not the largest one, the bounds of the scan are \<open>row_start = row_prefix\<close> and
  \<open>row_stop =\<close> the prefix with its last code point incremented by one, whatever
  \<open>row_start\<close> and \<open>row_stop\<close> the caller passed; every round is sent with that
  \<open>row_stop\<close>, the first round with that \<open>row_start\<close>; and a key lies in the range
  exactly if it starts with the prefix.
\<close>

theorem prefix_bounds:
  assumes "row_prefix p = Some pre" "pre \<noteq> []" "last pre < 0x10FFFF"
  shows "derive_bounds p = Inr (Some pre, Some (butlast pre @ [last pre + 1])) \<and>
         (\<forall>fuel scan rounds e. get_hbase_data_batch fuel scan p = (rounds, e) \<longrightarrow>
            (\<forall>r \<in> set rounds. req_stop r = Some (butlast pre @ [last pre + 1])) \<and>
            (rounds \<noteq> [] \<longrightarrow> req_start (hd rounds) = Some pre)) \<and>
         (\<forall>k. in_range (Some pre) (Some (butlast pre @ [last pre + 1])) k =
            (take (length pre) k = pre))"
proof -
  note db = derive_bounds_prefix[OF assms]
  have 2: "(\<forall>r \<in> set rounds. req_stop r = Some (butlast pre @ [last pre + 1])) \<and>
            (rounds \<noteq> [] \<longrightarrow> req_start (hd rounds) = Some pre)"
    if g: "get_hbase_data_batch fuel scan p = (rounds, e)" for fuel scan rounds e
  proof -
    from g db have sl: "scan_loop fuel scan p (Some pre) (Some (butlast pre @ [last pre + 1]))
        (initial_limit p) 0 = (rounds, e)"
      by (simp add: get_hbase_data_batch_def)
    from scan_loop_stop[OF sl] scan_loop_first[OF sl] show ?thesis by blast
  qed
  from db 2 prefix_range[OF assms(2)] show ?thesis by blast
qed

text \<open>The example of the claim: the prefix \<open>user:9\<close> gives the range from \<open>user:9\<close> to
  \<open>user::\<close>, which contains \<open>user:9abc\<close> and not \<open>user:a\<close>.\<close>

theorem prefix_bounds_witness:
  "derive_bounds (scan_defaults\<lparr>row_start := Some (py ''a''), row_stop := Some (py ''b''),
      row_prefix := Some (py ''user:9'')\<rparr>) = Inr (Some (py ''user:9''), Some (py ''user::'')) \<and>
   in_range (Some (py ''user:9'')) (Some (py ''user::'')) (py ''user:9abc'') \<and>
   \<not> in_range (Some (py ''user:9'')) (Some (py ''user::'')) (py ''user:a'') \<and>
   get_hbase_data_batch (Suc (Suc 0)) (store_scan user_rows)
     (scan_defaults\<lparr>row_start := Some (py ''a''), row_stop := Some (py ''b''),
      row_prefix := Some (py ''user:9'')\<rparr>) =
     ([Round (Some (py ''user:9'')) (Some (py ''user::'')) 100000
         [(py ''user:9'', ()), (py ''user:9abc'', ())],
       Round (Some (py ''user:9abd'')) (Some (py ''user::'')) 100000 []], Exhausted)"
proof -
  let ?p = "scan_defaults\<lparr>row_start := Some (py ''a''), row_stop := Some (py ''b''),
      row_prefix := Some (py ''user:9'')\<rparr>"
  have h: "row_prefix ?p = Some (py ''user:9'')" "py ''user:9'' \<noteq> []" "last (py ''user:9'') < 0x10FFFF"
    by simp_all
  have st: "butlast (py ''user:9'') @ [last (py ''user:9'') + 1] = py ''user::''" by simp
  note T = prefix_bounds[OF h, unfolded st]
  from T have a: "derive_bounds ?p = Inr (Some (py ''user:9''), Some (py ''user::''))" by blast
  from T have R: "in_range (Some (py ''user:9'')) (Some (py ''user::'')) k =
      (take (length (py ''user:9'')) k = py ''user:9'')" for k
    by blast
  have b: "in_range (Some (py ''user:9'')) (Some (py ''user::'')) (py ''user:9abc'')"
    using R[of "py ''user:9abc''"] by simp
  have c: "\<not> in_range (Some (py ''user:9'')) (Some (py ''user::'')) (py ''user:a'')"
    using R[of "py ''user:a''"] by simp
  have d: "get_hbase_data_batch (Suc (Suc 0)) (store_scan user_rows) ?p =
     ([Round (Some (py ''user:9'')) (Some (py ''user::'')) 100000
         [(py ''user:9'', ()), (py ''user:9abc'', ())],
       Round (Some (py ''user:9abd'')) (Some (py ''user::'')) 100000 []], Exhausted)"
    by (simp add: scan_eval user_rows_def)
  from a b c d show ?thesis by blast
qed

text \<open>
  The claim as stated fails for a prefix that is given but empty, which is false in
  \<open>if row_prefix:\<close>, so that the bounds of the caller are kept; and for a prefix that
  ends in \<open>U+10FFFF\<close>, where \<open>chr\<close> raises \<open>ValueError\<close> before any scan.
\<close>

theorem prefix_bounds_counterexample:
  "derive_bounds empty_prefix = Inr (Some (py ''a''), Some (py ''b'')) \<and>
   derive_bounds overflow_prefix = Inl ValueError \<and>
   get_hbase_data_batch (Suc 0) (store_scan user_rows) overflow_prefix = ([], Raised ValueError)"
  by (simp add: scan_eval empty_prefix_def overflow_prefix_def)


subsection \<open>Termination\<close>

text \<open>
  Claim C8, as amended. For a forward scan over a store with finitely many rows whose
  keys are UTF-8 text, the outcome of the generator is the same for every bound on the number of rounds that
  exceeds the number of rows: the loop stops. It stops in one of the three normal
  states or with an error: \<open>IndexError\<close> or \<open>ValueError\<close> from the increment of a key or
  of the prefix, \<open>ValueError\<close> from the client for a size below one, or
  \<open>UnicodeEncodeError\<close> from the client for a bound that holds a surrogate. If
  \<open>batch_size\<close> is at least one, the limit is not negative, the bounds of the caller can
  be encoded, and every key of the store and the prefix can be encoded and incremented
  to a string that can be encoded, it stops in one of the three normal states.
\<close>

theorem scan_terminates:
  "\<exists>r. (\<forall>fuel. length tbl < fuel \<longrightarrow> get_hbase_data_batch fuel (store_scan tbl) p = r) \<and>
       snd r \<in> {Exhausted, SingleRow, LimitReached, Raised IndexError, Raised ValueError,
                 Raised UnicodeEncodeError} \<and>
       ((\<forall>k \<in> fst ` set tbl. encodable k \<and> incrementable k) \<and> bounds_ok p \<and>
        1 \<le> batch_size p \<and> (limit p = None \<or> 0 \<le> the (limit p))
          \<longrightarrow> snd r \<in> {Exhausted, SingleRow, LimitReached})"
proof (cases "derive_bounds p")
  case (Inl err)
  then have tr: "truthy_seq (row_prefix p)" and inc: "increment_last (the (row_prefix p)) = Inl err"
    by (auto simp: derive_bounds_def split: if_splits sum.splits)
  from increment_last_errors[OF inc] Inl tr
  show ?thesis
    by (intro exI[of _ "([], Raised err)"]) (auto simp: get_hbase_data_batch_def bounds_ok_def)
next
  case (Inr bs)
  obtain a b where bs: "bs = (a, b)" by (cases bs)
  let ?S = "fst ` set tbl"
  let ?run = "\<lambda>fuel. scan_loop fuel (store_scan tbl) p a b (initial_limit p) 0"
  have g: "get_hbase_data_batch fuel (store_scan tbl) p = ?run fuel" for fuel
    using Inr bs by (simp add: get_hbase_data_batch_def)
  have "card (above ?S a) \<le> card ?S"
    by (intro card_mono) (auto simp: above_def split: option.splits)
  also have "\<dots> \<le> length tbl"
    by (metis card_image_le card_length le_trans List.finite_set)
  finally have c: "card (above ?S a) < Suc (length tbl)" by simp
  have fin: "finite ?S" by simp
  from scan_loop_terminates[OF fin store_scan_forward c]
  have nf: "snd (?run (Suc (length tbl))) \<noteq> OutOfFuel" .
  have same: "?run fuel = ?run (Suc (length tbl))" if "length tbl < fuel" for fuel
  proof -
    from that obtain m where "fuel = Suc (length tbl) + m"
      by (metis Suc_leI le_Suc_ex)
    with scan_loop_more_fuel[OF nf] show ?thesis by simp
  qed
  have rs: "\<forall>s t n err. store_scan tbl s t n = Inl err \<longrightarrow>
      err = ValueError \<or> err = UnicodeEncodeError"
    using store_scan_raises by blast
  from scan_loop_errors[OF rs] nf
  have e1: "snd (?run (Suc (length tbl))) \<in>
      {Exhausted, SingleRow, LimitReached, Raised IndexError, Raised ValueError,
       Raised UnicodeEncodeError}"
    by fastforce
  have e2: "snd (?run (Suc (length tbl))) \<in> {Exhausted, SingleRow, LimitReached}"
    if ok: "\<forall>k \<in> fst ` set tbl. encodable k \<and> incrementable k" and bo: "bounds_ok p"
      and b1: "1 \<le> batch_size p" and l0: "limit p = None \<or> 0 \<le> the (limit p)"
  proof -
    have rows: "\<forall>s t n rows r. store_scan tbl s t n = Inr rows \<longrightarrow> r \<in> set rows \<longrightarrow>
        encodable (fst r) \<and> incrementable (fst r)"
    proof (intro allI impI)
      fix s t n rows r
      assume "store_scan tbl s t n = Inr rows" "r \<in> set rows"
      from store_scan_rows[OF this] have "r \<in> set tbl" by simp
      with ok show "encodable (fst r) \<and> incrementable (fst r)" by simp
    qed
    have acc: "\<forall>s t n. bound_ok s \<and> bound_ok t \<and> 1 \<le> n \<longrightarrow>
        (\<exists>rows. store_scan tbl s t n = Inr rows)"
      using store_scan_accepts by blast
    have ab: "bound_ok a \<and> bound_ok b"
    proof (cases "truthy_seq (row_prefix p)")
      case False
      with Inr bs bo show ?thesis by (simp add: derive_bounds_def bounds_ok_def)
    next
      case True
      with bo have pe: "encodable (the (row_prefix p))" and pi: "incrementable (the (row_prefix p))"
        by (simp_all add: bounds_ok_def)
      from True Inr bs obtain stop where
        st: "increment_last (the (row_prefix p)) = Inr stop" and a: "a = row_prefix p"
        and b: "b = Some stop"
        by (auto simp: derive_bounds_def split: sum.splits)
      from True obtain pre where pre: "row_prefix p = Some pre"
        by (auto simp: truthy_seq_def split: option.splits)
      from encodable_increment[OF pe pi st] pe a b pre show ?thesis
        by (simp add: bound_ok_def)
    qed
    have il: "1 \<le> initial_limit p"
      using b1 l0 by (auto simp: initial_limit_def truthy_int_def split: option.splits)
    from ab have a1: "bound_ok a" and b2: "bound_ok b" by simp_all
    from scan_loop_normal[OF rows acc b1 l0 b2 a1 il] nf show ?thesis by fastforce
  qed
  show ?thesis
    using same e1 e2 by (intro exI[of _ "?run (Suc (length tbl))"]) (simp add: g)
qed

text \<open>Five rows and batch size 2: the generator stops in the single-row state.\<close>

theorem scan_terminates_witness:
  "list_all (\<lambda>k. encodable k \<and> incrementable k) (map fst five_rows) \<and>
   bounds_ok (scan_defaults\<lparr>batch_size := 2\<rparr>) \<and>
   (1::int) \<le> batch_size (scan_defaults\<lparr>batch_size := 2\<rparr>) \<and>
   limit (scan_defaults\<lparr>batch_size := 2\<rparr>) = None \<and>
   (\<exists>r. get_hbase_data_batch (Suc (Suc (Suc (Suc (Suc (Suc 0)))))) (store_scan five_rows)
            (scan_defaults\<lparr>batch_size := 2\<rparr>) = r \<and>
        get_hbase_data_batch (Suc (Suc (Suc (Suc (Suc (Suc (Suc 0))))))) (store_scan five_rows)
            (scan_defaults\<lparr>batch_size := 2\<rparr>) = r \<and>
        snd r \<in> {Exhausted, SingleRow, LimitReached} \<and> snd r = SingleRow)"
proof -
  let ?p = "scan_defaults\<lparr>batch_size := 2\<rparr>"
  have k: "list_all (\<lambda>k. encodable k \<and> incrementable k) (map fst five_rows)"
    by (simp add: five_rows_def incrementable_def encodable_def codepoint_ok_def)
  then have k': "\<forall>k \<in> fst ` set five_rows. encodable k \<and> incrementable k"
    by (simp add: list_all_iff)
  have t: "bounds_ok ?p"
    by (simp add: scan_defaults_def bounds_ok_def bound_ok_def truthy_seq_def)
  have b: "(1::int) \<le> batch_size ?p" by simp
  have l: "limit ?p = None" by (simp add: scan_defaults_def)
  from scan_terminates[of five_rows ?p] k' t b l
  obtain r where r: "\<forall>fuel. length five_rows < fuel \<longrightarrow>
            get_hbase_data_batch fuel (store_scan five_rows) ?p = r"
    and n: "snd r \<in> {Exhausted, SingleRow, LimitReached}"
    by blast
  have "length five_rows < Suc (Suc (Suc (Suc (Suc (Suc 0)))))"
    "length five_rows < Suc (Suc (Suc (Suc (Suc (Suc (Suc 0))))))"
    by (simp_all add: five_rows_def)
  with r have r6: "get_hbase_data_batch (Suc (Suc (Suc (Suc (Suc (Suc 0)))))) (store_scan five_rows)
      ?p = r"
    and r7: "get_hbase_data_batch (Suc (Suc (Suc (Suc (Suc (Suc (Suc 0))))))) (store_scan five_rows)
      ?p = r"
    by blast+
  have "snd (get_hbase_data_batch (Suc (Suc (Suc (Suc (Suc (Suc 0)))))) (store_scan five_rows)
      ?p) = SingleRow"
    by (simp add: scan_eval five_rows_def)
  with r6 have "snd r = SingleRow" by simp
  with k t b l r6 r7 n show ?thesis by blast
qed

text \<open>
  The claim as stated fails on a store whose last key of a batch ends in \<open>U+10FFFF\<close>:
  \<open>chr\<close> raises \<open>ValueError\<close>, which is none of the three normal states.
\<close>

theorem three_normal_states_counterexample:
  "get_hbase_data_batch (Suc (Suc 0)) (store_scan overflow_rows) scan_defaults =
     ([Round None None 100000 [(py ''k1'', ()), ([107, 0x10FFFF], ())]], Raised ValueError)"
  by (simp add: scan_eval overflow_rows_def)

text \<open>
  The theorem is about forward scans. In a reverse scan the store returns the rows from
  \<open>row_start\<close> downwards, while the cursor still moves \<open>row_start\<close> upwards, past the
  smallest key of the batch: over five rows with batch size 2 every round returns
  \<open>k5\<close> and \<open>k4\<close> again, and the loop is still running after any number of rounds.
\<close>

lemma reverse_round:
  "reverse_store_scan five_rows (Some (py ''k5'')) None 2 =
     Inr [(py ''k5'', ()), (py ''k4'', ())]"
  by (simp add: reverse_store_scan_def five_rows_def bound_ok_def encodable_def codepoint_ok_def)

lemma reverse_loop:
  "snd (scan_loop fuel (reverse_store_scan five_rows) (scan_defaults\<lparr>batch_size := 2\<rparr>)
      (Some (py ''k5'')) None 2 d) = OutOfFuel"
proof (induction fuel arbitrary: d)
  case 0
  show ?case by simp
next
  case (Suc fuel)
  have inc: "increment_last (py ''k4'') = Inr (py ''k5'')"
    by (simp add: increment_last_def chr_def)
  from Suc[of "d + 2"] inc reverse_round show ?case
    by (simp add: scan_defaults_def truthy_int_def case_prod_beta)
qed

lemma reverse_scan_never_stops:
  "snd (get_hbase_data_batch fuel (reverse_store_scan five_rows)
      (scan_defaults\<lparr>batch_size := 2\<rparr>)) = OutOfFuel"
proof (cases fuel)
  case 0
  then show ?thesis by (simp add: scan_eval)
next
  case (Suc n)
  have first: "reverse_store_scan five_rows None None 2 = Inr [(py ''k5'', ()), (py ''k4'', ())]"
    by (simp add: reverse_store_scan_def five_rows_def bound_ok_def encodable_def codepoint_ok_def)
  have inc: "increment_last (py ''k4'') = Inr (py ''k5'')"
    by (simp add: increment_last_def chr_def)
  from reverse_loop[of n 2] first inc Suc show ?thesis
    by (simp add: get_hbase_data_batch_def derive_bounds_def initial_limit_def truthy_seq_def
        truthy_int_def scan_defaults_def case_prod_beta)
qed


section \<open>Theorems about save\_to\_hbase\<close>

subsection \<open>The working copy and the heap\<close>

lemma row_segments_frame:
  "n \<le> a \<Longrightarrow> take n (snd (row_segments h a fs)) = take n h"
proof (induction fs arbitrary: h)
  case Nil
  show ?case by simp
next
  case (Cons f fs)
  show ?case
  proof (cases "map_of (h ! a) f")
    case None
    with Cons.IH[OF Cons.prems, of h] show ?thesis by (simp add: case_prod_beta)
  next
    case (Some v)
    with Cons.IH[OF Cons.prems, of "h[a := AList.delete f (h ! a)]"] Cons.prems
    show ?thesis by (simp add: case_prod_beta)
  qed
qed

lemma row_segments_length: "length (snd (row_segments h a fs)) = length h"
proof (induction fs arbitrary: h)
  case Nil
  show ?case by simp
next
  case (Cons f fs)
  show ?case
  proof (cases "map_of (h ! a) f")
    case None
    with Cons.IH[of h] show ?thesis by (simp add: case_prod_beta)
  next
    case (Some v)
    with Cons.IH[of "h[a := AList.delete f (h ! a)]"]
    show ?thesis by (simp add: case_prod_beta)
  qed
qed

lemma delete_dom: "fst ` set (AList.delete f al) = fst ` set al - {f}"
  by (induction al) auto

lemma row_segments_keys:
  "a < length h \<Longrightarrow>
   fst ` set (snd (row_segments h a fs) ! a) = fst ` set (h ! a) - set fs"
proof (induction fs arbitrary: h)
  case Nil
  show ?case by simp
next
  case (Cons f fs)
  show ?case
  proof (cases "map_of (h ! a) f")
    case None
    then have "f \<notin> fst ` set (h ! a)" by (simp add: map_of_eq_None_iff)
    with None Cons.IH[OF Cons.prems] show ?thesis by (simp add: case_prod_beta)
  next
    case (Some v)
    let ?h = "h[a := AList.delete f (h ! a)]"
    from Cons.prems have "a < length ?h" by simp
    from Cons.IH[OF this] Cons.prems Some show ?thesis
      by (simp add: case_prod_beta delete_dom) blast
  qed
qed

lemma write_documents_frame:
  "n \<le> length h \<Longrightarrow> take n (fst (write_documents uid m rf h k ds)) = take n h"
proof (induction ds arbitrary: h k)
  case Nil
  show ?case by simp
next
  case (Cons d ds)
  let ?h1 = "h @ [h ! d]"
  show ?case
  proof (cases "truthy_seq rf")
    case False
    from Cons.prems have le: "n \<le> length ?h1" by simp
    from Cons.IH[OF le] Cons.prems False show ?thesis
      by (simp add: dict_copy_def case_prod_beta split: sum.splits)
  next
    case True
    obtain segs h2 where rs: "row_segments ?h1 (length h) (the rf) = (segs, h2)"
      by (cases "row_segments ?h1 (length h) (the rf)")
    from row_segments_frame[OF Cons.prems, of ?h1 "the rf"] rs Cons.prems
    have t: "take n h2 = take n h" by simp
    from row_segments_length[of ?h1 "length h" "the rf"] rs Cons.prems
    have le: "n \<le> length h2" by simp
    from Cons.IH[OF le] t True rs show ?thesis
      by (simp add: dict_copy_def case_prod_beta split: sum.splits)
  qed
qed

lemma save_to_hbase_frame:
  "take (length h) (fst (save_to_hbase create uid h docs t m rf bs)) = h"
  using write_documents_frame[of "length h" h uid m rf 0 docs]
  by (simp add: save_to_hbase_def get_h_table_def Let_def case_prod_beta)


subsection \<open>Row keys, mappings and columns\<close>

lemma nat_of_digits_snoc: "nat_of_digits (s @ [c]) = 10 * nat_of_digits s + (c - 48)"
  by (simp add: nat_of_digits_def)

lemma nat_of_digits_str_nat: "nat_of_digits (str_nat n) = n"
proof (induction n rule: str_nat.induct)
  case (1 n)
  show ?case
  proof (cases "n < 10")
    case True
    then show ?thesis by (subst str_nat.simps) (simp add: nat_of_digits_def)
  next
    case False
    with "1.IH" have "nat_of_digits (str_nat (n div 10)) = n div 10" by simp
    with False show ?thesis
      by (subst str_nat.simps) (simp add: nat_of_digits_snoc)
  qed
qed

lemma str_nat_inj: "str_nat a = str_nat b \<Longrightarrow> a = b"
  by (metis nat_of_digits_str_nat)

lemma sequence_of_auto_key: "sequence_of uid (auto_key uid i) = i"
  by (simp add: sequence_of_def auto_key_def nat_of_digits_str_nat)

lemma auto_key_inj: "inj (auto_key uid)"
  by (metis injI sequence_of_auto_key)

lemma build_values_bad:
  "Other \<in> snd ` set m \<Longrightarrow> build_values m d vals = Inl MappingError"
proof (induction m d vals rule: build_values.induct)
  case (1 d vals)
  then show ?case by simp
qed auto

lemma build_values_good:
  "Other \<notin> snd ` set m \<Longrightarrow> \<exists>vals'. build_values m d vals = Inr vals'"
proof (induction m d vals rule: build_values.induct)
  case (4 cf m d vals)
  then show ?case by simp
qed auto

lemma write_documents_auto:
  assumes "\<not> truthy_seq rf" "Other \<notin> snd ` set m"
  shows "put_rows (fst (snd (write_documents uid m rf h k ds))) = map (auto_key uid) [k..<k + length ds]
     \<and> snd (snd (write_documents uid m rf h k ds)) = Inr ()"
proof (induction ds arbitrary: h k)
  case Nil
  show ?case by simp
next
  case (Cons d ds)
  from build_values_good[OF assms(2)] obtain vals where
    v: "build_values m ((h @ [h ! d]) ! length h) [] = Inr vals" by blast
  have u: "[k..<Suc (k + length ds)] = k # [Suc k..<Suc (k + length ds)]"
    by (rule upt_conv_Cons) simp
  from Cons.IH[of "h @ [h ! d]" "Suc k"]
  have ih: "put_rows (fst (snd (write_documents uid m rf (h @ [h ! d]) (Suc k) ds))) =
      map (auto_key uid) [Suc k..<Suc (k + length ds)]"
    and ih2: "snd (snd (write_documents uid m rf (h @ [h ! d]) (Suc k) ds)) = Inr ()"
    by simp_all
  have "put_rows (fst (snd (write_documents uid m rf h k (d # ds)))) =
      auto_key uid k # map (auto_key uid) [Suc k..<Suc (k + length ds)]"
    using assms(1) v ih by (simp add: dict_copy_def case_prod_beta del: upt_Suc)
  moreover have "snd (snd (write_documents uid m rf h k (d # ds))) = Inr ()"
    using assms(1) v ih2 by (simp add: dict_copy_def case_prod_beta del: upt_Suc)
  ultimately show ?case using u by (simp del: upt_Suc)
qed

lemma write_documents_bad:
  assumes "Other \<in> snd ` set m" "ds \<noteq> []"
  shows "snd (write_documents uid m rf h k ds) = ([], Inl MappingError)"
proof -
  from assms(2) obtain d ds' where ds: "ds = d # ds'" by (cases ds) auto
  show ?thesis
    by (simp add: ds build_values_bad[OF assms(1)] dict_copy_def case_prod_beta)
qed

lemma update_keeps: "k \<in> fst ` set vals \<Longrightarrow> k \<in> fst ` set (AList.update k' v vals)"
  by (simp add: dom_update)

lemma put_all_keeps: "k \<in> fst ` set vals \<Longrightarrow> k \<in> fst ` set (put_all cf d vals)"
  by (induction cf d vals rule: put_all.induct) (simp_all add: dom_update)

lemma put_fields_keeps: "k \<in> fst ` set vals \<Longrightarrow> k \<in> fst ` set (put_fields cf d fs vals)"
  by (induction cf d fs vals rule: put_fields.induct) (simp_all add: dom_update split: option.splits)

lemma put_all_emits: "c \<in> fst ` set d \<Longrightarrow> column cf c \<in> fst ` set (put_all cf d vals)"
proof (induction cf d vals rule: put_all.induct)
  case (1 cf vals)
  then show ?case by simp
next
  case (2 cf c' v items vals)
  show ?case
  proof (cases "c = c'")
    case True
    have "column cf c' \<in> fst ` set (AList.update (column cf c') (py_str v) vals)"
      by (simp add: dom_update)
    from put_all_keeps[OF this] True show ?thesis by simp
  next
    case False
    with "2.prems" have "c \<in> fst ` set items" by auto
    from "2.IH"[OF this] show ?thesis by simp
  qed
qed

lemma build_values_keeps:
  "build_values m d vals = Inr values \<Longrightarrow> k \<in> fst ` set vals \<Longrightarrow> k \<in> fst ` set values"
proof (induction m d vals rule: build_values.induct)
  case (2 cf m d vals)
  from "2.IH"[OF _ put_all_keeps[OF "2.prems"(2)]] "2.prems"(1) show ?case by simp
next
  case (3 cf fs m d vals)
  from "3.IH"[OF _ put_fields_keeps[OF "3.prems"(2)]] "3.prems"(1) show ?case by simp
qed auto

lemma build_values_all:
  "build_values m d vals = Inr values \<Longrightarrow> (cf, All) \<in> set m \<Longrightarrow> c \<in> fst ` set d \<Longrightarrow>
   column cf c \<in> fst ` set values"
proof (induction m d vals rule: build_values.induct)
  case (1 d vals)
  then show ?case by simp
next
  case (2 cf' m d vals)
  show ?case
  proof (cases "(cf, All) \<in> set m")
    case True
    from "2.IH"[OF _ True "2.prems"(3)] "2.prems"(1) show ?thesis by simp
  next
    case False
    with "2.prems"(2) have "cf' = cf" by simp
    with "2.prems"(1) have b: "build_values m d (put_all cf d vals) = Inr values" by simp
    from build_values_keeps[OF b put_all_emits[OF "2.prems"(3)]] show ?thesis .
  qed
next
  case (3 cf' fs m d vals)
  from "3.prems"(2) have "(cf, All) \<in> set m" by simp
  from "3.IH"[OF _ this "3.prems"(3)] "3.prems"(1) show ?case by simp
next
  case (4 cf' m d vals)
  then show ?case by simp
qed


subsection \<open>Field consumption\<close>

text \<open>
  Claim C1, as amended. The loop over the mapping only reads the working copy: no entry
  removes a field from it. Only the extraction of the row key (explicit mode) removes
  fields. So an \<open>"all"\<close> entry of family \<open>cf\<close> emits a column \<open>cf:c\<close> for every field
  \<open>c\<close> of the document that is not a row-key field, also when an earlier entry of the
  mapping listed \<open>c\<close>.
\<close>

theorem all_selector_emits_every_field:
  assumes "write_documents uid cf_mapping row_fields h row_auto [d] = (h', evs, Inr ())"
    and "(cf, All) \<in> set cf_mapping"
    and "c \<in> fst ` set (h ! d)"
    and "truthy_seq row_fields \<longrightarrow> c \<notin> set (the row_fields)"
  shows "\<exists>row vals. evs = [Put row vals, Send] \<and> column cf c \<in> fst ` set vals"
proof -
  let ?h1 = "h @ [h ! d]"
  let ?a = "length h"
  let ?h2 = "if truthy_seq row_fields then snd (row_segments ?h1 ?a (the row_fields)) else ?h1"
  have keys: "c \<in> fst ` set (?h2 ! ?a)"
  proof (cases "truthy_seq row_fields")
    case False
    with assms(3) show ?thesis by simp
  next
    case True
    have "?a < length ?h1" by simp
    from row_segments_keys[OF this, of "the row_fields"] assms(3,4) True
    show ?thesis by simp
  qed
  from assms(1) obtain row vals where
    b: "build_values cf_mapping (?h2 ! ?a) [] = Inr vals" and e: "evs = [Put row vals, Send]"
    by (auto simp: dict_copy_def case_prod_beta split: sum.splits if_splits)
  from build_values_all[OF b assms(2) keys] e show ?thesis by blast
qed

text \<open>The mapping \<open>[("a", ["x"]), ("b", "all")]\<close> and the record \<open>{x: 1, y: 2}\<close>: the
  field \<open>x\<close> is written under \<open>a\<close> and under \<open>b\<close>.\<close>

theorem all_selector_emits_every_field_witness:
  "write_documents (py ''u'') xy_mapping None [xy_record] 0 [0] =
     ([xy_record, xy_record],
      [Put (py ''u~0'') [(py ''a:x'', py ''1''), (py ''b:x'', py ''1''), (py ''b:y'', py ''2'')], Send],
      Inr ()) \<and>
   (py ''b'', All) \<in> set xy_mapping \<and> py ''x'' \<in> fst ` set ([xy_record] ! 0) \<and>
   \<not> truthy_seq (None :: pystr list option) \<and>
   (\<exists>row vals. [Put (py ''u~0'') [(py ''a:x'', py ''1''), (py ''b:x'', py ''1''), (py ''b:y'', py ''2'')], Send]
       = [Put row vals, Send] \<and> column (py ''b'') (py ''x'') \<in> fst ` set vals)"
proof -
  have r: "write_documents (py ''u'') xy_mapping None [xy_record] 0 [0] =
     ([xy_record, xy_record],
      [Put (py ''u~0'') [(py ''a:x'', py ''1''), (py ''b:x'', py ''1''), (py ''b:y'', py ''2'')], Send],
      Inr ())"
    by (simp add: write_eval xy_record_def xy_mapping_def)
  have m: "(py ''b'', All) \<in> set xy_mapping" by (simp add: xy_mapping_def)
  have x: "py ''x'' \<in> fst ` set ([xy_record] ! 0)" by (simp add: xy_record_def)
  have t: "\<not> truthy_seq (None :: pystr list option)" by (simp add: truthy_seq_def)
  then have t': "truthy_seq (None :: pystr list option) \<longrightarrow> py ''x'' \<notin> set (the None)" by simp
  from all_selector_emits_every_field[OF r m x t'] r m x t show ?thesis by blast
qed

text \<open>The claim as stated fails on its own example: the columns written are
  \<open>a:x\<close>, \<open>b:x\<close> and \<open>b:y\<close>, not only \<open>a:x\<close> and \<open>b:y\<close>.\<close>

theorem field_consumption_counterexample:
  "save_to_hbase creates (py ''u'') [xy_record] [0] (py ''t'') xy_mapping None 1000 =
     ([xy_record, xy_record],
      [CreateTable (py ''t'') [py ''a'', py ''b''], OpenTable (py ''t''), OpenBatch (py ''t'') 1000,
       Put (py ''u~0'') [(py ''a:x'', py ''1''), (py ''b:x'', py ''1''), (py ''b:y'', py ''2'')],
       Send],
      Inr ())"
  by (simp add: write_eval xy_record_def xy_mapping_def)


subsection \<open>Invalid mapping\<close>

text \<open>
  With at least one document (and a batch size that the client accepts), a selector
  that is neither \<open>"all"\<close> nor a list makes the call raise the invalid-mapping error
  while the values of the first document are built: after the table acquisition and
  the opening of the batch, no \<open>put\<close> and no \<open>send\<close> is issued.
\<close>

lemma invalid_mapping_raises:
  assumes "Other \<in> snd ` set cf_mapping" "documents \<noteq> []" "0 < bs"
  shows "snd (save_to_hbase create uid h documents t cf_mapping row_fields bs) =
     (fst (get_h_table create t (Some (dict_keys (map fst cf_mapping)))) @ [OpenBatch t bs],
      Inl MappingError) \<and>
     put_rows (fst (snd (save_to_hbase create uid h documents t cf_mapping row_fields bs))) = [] \<and>
     Send \<notin> set (fst (snd (save_to_hbase create uid h documents t cf_mapping row_fields bs)))"
proof -
  from write_documents_bad[OF assms(1,2), of uid row_fields h 0]
  have 1: "snd (save_to_hbase create uid h documents t cf_mapping row_fields bs) =
     (fst (get_h_table create t (Some (dict_keys (map fst cf_mapping)))) @ [OpenBatch t bs],
      Inl MappingError)"
    by (simp add: save_to_hbase_def get_h_table_def Let_def case_prod_beta)
  have 2: "put_rows (fst (get_h_table create t cf) @ [OpenBatch t bs]) = []"
       "Send \<notin> set (fst (get_h_table create t cf) @ [OpenBatch t bs])" for cf
    by (auto simp: get_h_table_def Let_def split: option.splits)
  from 1 2 show ?thesis by simp
qed

text \<open>Two documents and a mapping whose second selector is invalid.\<close>

lemma invalid_mapping_raises_example:
  "Other \<in> snd ` set bad_mapping \<and> [0, 0] \<noteq> ([] :: addr list) \<and>
   save_to_hbase creates (py ''u'') [xy_record] [0, 0] (py ''t'') bad_mapping None 1000 =
     ([xy_record, xy_record],
      [CreateTable (py ''t'') [py ''a'', py ''b''], OpenTable (py ''t''), OpenBatch (py ''t'') 1000],
      Inl MappingError)"
proof -
  have a: "Other \<in> snd ` set bad_mapping" by (simp add: bad_mapping_def)
  have b: "[0, 0] \<noteq> ([] :: addr list)" by simp
  have h: "fst (save_to_hbase creates (py ''u'') [xy_record] [0, 0] (py ''t'') bad_mapping None 1000)
      = [xy_record, xy_record]"
    by (simp add: write_eval xy_record_def bad_mapping_def)
  have g: "fst (get_h_table creates (py ''t'') (Some (dict_keys (map fst bad_mapping)))) =
     [CreateTable (py ''t'') [py ''a'', py ''b''], OpenTable (py ''t'')]"
    by (simp add: write_eval bad_mapping_def)
  have c: "(0::int) < 1000" by simp
  from invalid_mapping_raises[OF a b c, of creates "py ''u''" "[xy_record]" "py ''t''" None] g
  have "snd (save_to_hbase creates (py ''u'') [xy_record] [0, 0] (py ''t'') bad_mapping None 1000) =
     ([CreateTable (py ''t'') [py ''a'', py ''b''], OpenTable (py ''t''), OpenBatch (py ''t'') 1000],
      Inl MappingError)" by simp
  with h a b show ?thesis by (metis prod.collapse)
qed

text \<open>
  Claim C4. An entry of \<open>cf_mapping\<close> whose selector is neither \<open>"all"\<close> nor a list is
  to make the call raise the invalid-mapping error before anything is flushed, and the
  docstring of \<open>save_to_hbase\<close> says \<open>Raises: Exception: If column mapping is invalid\<close>.
  The code does not do so when \<open>documents\<close> is empty: the selector is only tested
  inside the loop over the documents, so the invalid mapping is never looked at, the
  empty batch is sent and the call returns normally.
\<close>

theorem invalid_mapping_empty_documents:
  "save_to_hbase creates (py ''u'') [xy_record] [] (py ''t'') bad_mapping None 1000 =
     ([xy_record],
      [CreateTable (py ''t'') [py ''a'', py ''b''], OpenTable (py ''t''), OpenBatch (py ''t'') 1000,
       Send],
      Inr ())"
  by (simp add: write_eval bad_mapping_def)


subsection \<open>Table acquisition\<close>

text \<open>
  Claim C5, as amended. Table acquisition always returns the handle of the table. When
  \<open>create_table\<close> succeeds or raises \<open>AlreadyExists\<close>, nothing else happens; when it
  raises any other exception, the exception is printed and the handle is returned all
  the same: no exception reaches the caller.
\<close>

theorem table_acquisition:
  "snd (get_h_table create t cf) = Inr t \<and>
   (create t (families cf) = None \<or> create t (families cf) = Some already_exists \<longrightarrow>
      fst (get_h_table create t cf) = [CreateTable t (families cf), OpenTable t]) \<and>
   (\<forall>e. create t (families cf) = Some e \<and> e \<noteq> already_exists \<longrightarrow>
      fst (get_h_table create t cf) = [CreateTable t (families cf), Print e, OpenTable t])"
  by (auto simp: get_h_table_def Let_def)

text \<open>A table that exists already, and a creation that fails with another error.\<close>

theorem table_acquisition_witness:
  "fails_with already_exists (py ''t'') (families (Some [py ''a''])) = Some already_exists \<and>
   get_h_table (fails_with already_exists) (py ''t'') (Some [py ''a'']) =
     ([CreateTable (py ''t'') [py ''a''], OpenTable (py ''t'')], Inr (py ''t'')) \<and>
   fails_with io_error (py ''t'') (families (Some [py ''a''])) = Some io_error \<and>
   io_error \<noteq> already_exists \<and>
   fst (get_h_table (fails_with io_error) (py ''t'') (Some [py ''a''])) =
     [CreateTable (py ''t'') [py ''a''], Print io_error, OpenTable (py ''t'')]"
proof -
  have a: "fails_with already_exists (py ''t'') (families (Some [py ''a''])) = Some already_exists"
    by (simp add: fails_with_def)
  have b: "fails_with io_error (py ''t'') (families (Some [py ''a''])) = Some io_error"
    by (simp add: fails_with_def)
  have c: "io_error \<noteq> already_exists" by (simp add: io_error_def already_exists_def)
  have f: "families (Some [py ''a'']) = [py ''a'']" by (simp add: families_def truthy_seq_def)
  note T1 = table_acquisition[of "fails_with already_exists" "py ''t''" "Some [py ''a'']"]
  note T2 = table_acquisition[of "fails_with io_error" "py ''t''" "Some [py ''a'']"]
  from T1 a f have 1: "get_h_table (fails_with already_exists) (py ''t'') (Some [py ''a'']) =
     ([CreateTable (py ''t'') [py ''a''], OpenTable (py ''t'')], Inr (py ''t''))"
    by (metis prod.collapse)
  from T2 b c f have 2: "fst (get_h_table (fails_with io_error) (py ''t'') (Some [py ''a''])) =
     [CreateTable (py ''t'') [py ''a''], Print io_error, OpenTable (py ''t'')]"
    by metis
  from a b c 1 2 show ?thesis by blast
qed

text \<open>The claim as stated fails when \<open>create_table\<close> raises an \<open>IOError\<close>: the error is
  printed and the function returns the handle, it does not raise.\<close>

theorem creation_failure_counterexample:
  "get_h_table (fails_with io_error) (py ''t'') (Some [py ''a'']) =
     ([CreateTable (py ''t'') [py ''a''], Print io_error, OpenTable (py ''t'')], Inr (py ''t''))"
  by (simp add: get_h_table_def families_def truthy_seq_def fails_with_def io_error_def
      already_exists_def)


subsection \<open>Automatic row keys\<close>

text \<open>
  Claim C7. In auto mode (no \<open>row_fields\<close>) and with a valid mapping, the call returns
  normally and the row keys of its \<open>put\<close> calls are \<open>uid~0\<close>, \<open>uid~1\<close>, ...,
  \<open>uid~(N-1)\<close> in the order of the \<open>N\<close> documents, with the one \<open>uid\<close> of the call; the
  sequence numbers read back from the keys are \<open>0, ..., N-1\<close>, and the keys are pairwise
  distinct.
\<close>

theorem auto_row_keys:
  assumes "\<not> truthy_seq row_fields" "Other \<notin> snd ` set cf_mapping"
    and "save_to_hbase create uid h documents t cf_mapping row_fields bs = (h', evs, r)"
  shows "r = Inr () \<and>
     put_rows evs = map (auto_key uid) [0..<length documents] \<and>
     map (sequence_of uid) (put_rows evs) = [0..<length documents] \<and>
     distinct (put_rows evs)"
proof -
  from write_documents_auto[OF assms(1,2), of uid h 0 documents]
  have w: "put_rows (fst (snd (write_documents uid cf_mapping row_fields h 0 documents))) =
      map (auto_key uid) [0..<length documents]"
    and ok: "snd (snd (write_documents uid cf_mapping row_fields h 0 documents)) = Inr ()"
    by simp_all
  have pre: "put_rows (fst (get_h_table create t cf) @ OpenBatch t bs # es) = put_rows es" for cf es
    by (simp add: get_h_table_def Let_def split: option.splits)
  from assms(3) have r: "r = Inr ()" and e: "put_rows evs = map (auto_key uid) [0..<length documents]"
    using w ok pre by (auto simp: save_to_hbase_def get_h_table_def Let_def case_prod_beta)
  have s: "map (sequence_of uid) (put_rows evs) = [0..<length documents]"
    by (simp add: e sequence_of_auto_key map_idI)
  have d: "distinct (put_rows evs)"
    unfolding e using auto_key_inj[of uid] by (simp add: distinct_map inj_on_def inj_def)
  from r e s d show ?thesis by blast
qed

text \<open>Three documents written in one call.\<close>

theorem auto_row_keys_witness:
  "\<not> truthy_seq (None :: pystr list option) \<and> Other \<notin> snd ` set xy_mapping \<and>
   put_rows (fst (snd (save_to_hbase creates (py ''u'') [xy_record] [0, 0, 0] (py ''t'') xy_mapping
      None 1000))) = [py ''u~0'', py ''u~1'', py ''u~2''] \<and>
   distinct [py ''u~0'', py ''u~1'', py ''u~2''] \<and>
   map (sequence_of (py ''u'')) [py ''u~0'', py ''u~1'', py ''u~2''] = [0, 1, 2]"
proof -
  have a: "\<not> truthy_seq (None :: pystr list option)" by (simp add: truthy_seq_def)
  have b: "Other \<notin> snd ` set xy_mapping" by (simp add: xy_mapping_def)
  obtain h' evs r where s: "save_to_hbase creates (py ''u'') [xy_record] [0, 0, 0] (py ''t'') xy_mapping
      None 1000 = (h', evs, r)" by (metis prod.collapse)
  have k: "map (auto_key (py ''u'')) [0..<length [0::nat, 0, 0]] = [py ''u~0'', py ''u~1'', py ''u~2'']"
    by (simp add: auto_key_def str_nat.simps upt_rec)
  have u: "[0..<length [0::nat, 0, 0]] = [0, 1, 2]" by (simp add: upt_rec)
  from auto_row_keys[OF a b s]
  have p: "put_rows evs = map (auto_key (py ''u'')) [0..<length [0::nat, 0, 0]]"
    and d: "distinct (put_rows evs)"
    and q: "map (sequence_of (py ''u'')) (put_rows evs) = [0..<length [0::nat, 0, 0]]"
    by blast+
  from p k have p': "put_rows evs = [py ''u~0'', py ''u~1'', py ''u~2'']" by (simp only:)
  from d have d': "distinct [py ''u~0'', py ''u~1'', py ''u~2'']" by (simp only: p')
  from q have q': "map (sequence_of (py ''u'')) [py ''u~0'', py ''u~1'', py ''u~2''] = [0, 1, 2]"
    by (simp only: p' u)
  from s p' have "put_rows (fst (snd (save_to_hbase creates (py ''u'') [xy_record] [0, 0, 0] (py ''t'')
      xy_mapping None 1000))) = [py ''u~0'', py ''u~1'', py ''u~2'']" by simp
  with a b d' q' show ?thesis by blast
qed


subsection \<open>The caller's documents\<close>

text \<open>
  Claim C9. The call does not change any object that existed before it: the heap after
  the call agrees with the heap before it on every address that was allocated, so each
  document of the caller is unchanged, also in explicit row-key mode where the key
  fields are removed (from the copy, which is a new object).
\<close>

theorem documents_unchanged:
  "take (length h) (fst (save_to_hbase create uid h documents t cf_mapping row_fields bs)) = h \<and>
   (\<forall>d \<in> set documents. d < length h \<longrightarrow>
      fst (save_to_hbase create uid h documents t cf_mapping row_fields bs) ! d = h ! d)"
proof -
  let ?h' = "fst (save_to_hbase create uid h documents t cf_mapping row_fields bs)"
  have t: "take (length h) ?h' = h" by (rule save_to_hbase_frame)
  have "?h' ! d = h ! d" if "d < length h" for d
  proof -
    from that have "take (length h) ?h' ! d = ?h' ! d" by simp
    with t show ?thesis by simp
  qed
  with t show ?thesis by blast
qed

text \<open>Explicit mode with row field \<open>x\<close>: the copy loses \<open>x\<close>, the document keeps it.\<close>

theorem documents_unchanged_witness:
  "fst (save_to_hbase creates (py ''u'') [xy_record] [0] (py ''t'') xy_mapping (Some [py ''x'']) 1000)
     = [xy_record, [(py ''y'', PyInt 2)]] \<and>
   put_rows (fst (snd (save_to_hbase creates (py ''u'') [xy_record] [0] (py ''t'') xy_mapping
      (Some [py ''x'']) 1000))) = [py ''1''] \<and>
   take (length [xy_record])
     (fst (save_to_hbase creates (py ''u'') [xy_record] [0] (py ''t'') xy_mapping (Some [py ''x'']) 1000))
     = [xy_record] \<and>
   fst (save_to_hbase creates (py ''u'') [xy_record] [0] (py ''t'') xy_mapping (Some [py ''x'']) 1000) ! 0
     = [xy_record] ! 0"
proof -
  have e: "save_to_hbase creates (py ''u'') [xy_record] [0] (py ''t'') xy_mapping (Some [py ''x'']) 1000 =
     ([xy_record, [(py ''y'', PyInt 2)]],
      [CreateTable (py ''t'') [py ''a'', py ''b''], OpenTable (py ''t''), OpenBatch (py ''t'') 1000,
       Put (py ''1'') [(py ''b:y'', py ''2'')], Send], Inr ())"
    by (simp add: write_eval xy_record_def xy_mapping_def)
  note T = documents_unchanged[of "[xy_record]" creates "py ''u''" "[0]" "py ''t''" xy_mapping
      "Some [py ''x'']" 1000]
  from T have 1: "take (length [xy_record])
     (fst (save_to_hbase creates (py ''u'') [xy_record] [0] (py ''t'') xy_mapping (Some [py ''x'']) 1000))
     = [xy_record]" by blast
  from T have 2: "fst (save_to_hbase creates (py ''u'') [xy_record] [0] (py ''t'') xy_mapping
      (Some [py ''x'']) 1000) ! 0 = [xy_record] ! 0" by simp
  from e 1 2 show ?thesis by simp
qed

end
